theory Spec2Isabelle
  imports Complex_Main "HOL-Library.AList" "HOL-Library.Sublist"
begin

section \<open>Data model\<close>

text \<open>
  A word is a JavaScript string, modelled as a \<open>string\<close> (a list of 8-bit characters, one
  per UTF-16 code unit of the ASCII words the tool plays with). Indexing a string out of
  range yields \<open>undefined\<close> in the source; \<open>charAt\<close> returns \<open>None\<close> there.
  Objects of type \<open>Record<string, T>\<close> are association lists in insertion order, as
  \<open>Object.entries\<close> enumerates them for keys that are not array indices. A key of the
  constraint maps is a \<open>char option\<close>: \<open>Some c\<close> is the one-letter property name, \<open>None\<close>
  is the property name \<open>undefined\<close> that an out-of-range \<open>guess[i]\<close> is coerced to.
\<close>

datatype LetterResult = PERFECT | CLOSE | WRONG

type_synonym LetterScores = "(char \<times> int list) list"

type_synonym LetterCount = "(char option \<times> nat) list"

record known =
  fixed :: string
  good :: LetterCount
  bad :: LetterCount
  badPositions :: "(char option \<times> nat list) list"
  guessResult :: string
  solved :: bool

definition charAt :: "string \<Rightarrow> nat \<Rightarrow> char option" where
  "charAt s i = (if i < length s then Some (s ! i) else None)"

text \<open>String coercion of an indexed character, as in \<open>knownFixed += oldFixed[i]\<close>.\<close>

definition toStr :: "char option \<Rightarrow> string" where
  "toStr v = (case v of None \<Rightarrow> ''undefined'' | Some c \<Rightarrow> [c])"

definition nothingKnown :: known where
  "nothingKnown = \<lparr> fixed = ''.....'', good = [], bad = [], badPositions = [],
     guessResult = [], solved = False \<rparr>"

section \<open>Regular expressions of the candidate filter\<close>

text \<open>
  The source builds two kinds of regular expression, both from letters of words:
  \<open>new RegExp(character, "g")\<close> from one property name, and \<open>new RegExp(known.fixed)\<close>
  from the fixed pattern. The model covers patterns whose characters are letters and the
  wildcard \<open>.\<close> (which matches every character but a line terminator); a pattern with
  another metacharacter of the regular expression syntax is outside the model.
\<close>

definition matchesChar :: "char \<Rightarrow> char \<Rightarrow> bool" where
  "matchesChar p c = (if p = CHR ''.'' then c \<noteq> CHR 0x0A \<and> c \<noteq> CHR 0x0D else p = c)"

fun matchesAt :: "string \<Rightarrow> string \<Rightarrow> bool" where
  "matchesAt [] cs = True"
| "matchesAt (p # ps) [] = False"
| "matchesAt (p # ps) (c # cs) = (matchesChar p c \<and> matchesAt ps cs)"

text \<open>\<open>regex.test(word)\<close> without anchors: the pattern may match at any offset.\<close>

fun regexTest :: "string \<Rightarrow> string \<Rightarrow> bool" where
  "regexTest pat [] = matchesAt pat []"
| "regexTest pat (c # cs) = (if matchesAt pat (c # cs) then True else regexTest pat cs)"

text \<open>
  The matches of a literal pattern under the \<open>g\<close> flag: found left to right, each search
  resuming behind the previous match.
\<close>

fun countMatches :: "string \<Rightarrow> string \<Rightarrow> nat" where
  "countMatches pat [] = 0"
| "countMatches pat (c # cs) =
     (if take (length pat) (c # cs) = pat
      then Suc (countMatches pat (drop (length pat - 1) cs))
      else countMatches pat cs)"

definition countOccurrences :: "string \<Rightarrow> char option \<Rightarrow> nat" where
  "countOccurrences s character = countMatches (toStr character) s"

section \<open>Candidate filter\<close>

text \<open>\<open>word[position] !== letter\<close>: \<open>undefined\<close> differs from every property name.\<close>

definition differsAt :: "string \<Rightarrow> nat \<Rightarrow> char option \<Rightarrow> bool" where
  "differsAt word position letter =
     (case charAt word position of None \<Rightarrow> True | Some c \<Rightarrow> Some c \<noteq> letter)"

text \<open>The predicate passed to \<open>words.filter\<close> in \<open>filterWords\<close>.\<close>

definition keeps :: "known \<Rightarrow> string \<Rightarrow> bool" where
  "keeps k word =
     (regexTest (fixed k) word
      \<and> list_all (\<lambda>(letter, count). countOccurrences word letter \<ge> count) (good k)
      \<and> list_all (\<lambda>(letter, count). countOccurrences word letter < count) (bad k)
      \<and> list_all (\<lambda>(letter, positions).
            list_all (\<lambda>position. differsAt word position letter) positions)
          (badPositions k))"

definition filterWords :: "string list \<Rightarrow> known \<Rightarrow> string list" where
  "filterWords words k = filter (keeps k) words"

section \<open>Feedback evaluator\<close>

text \<open>
  \<open>makeGuess\<close> runs two loops over the positions \<open>range(5)\<close>. The first counts, per letter
  of the solution, the positions where the guess does not hold that letter; the second
  classifies the positions of the guess from left to right and consumes those counts.
  \<open>letterOccurrences\<close> is a map from property names to counts.
\<close>

definition countUnmatched ::
  "string \<Rightarrow> string \<Rightarrow> (char option \<rightharpoonup> nat) \<Rightarrow> nat \<Rightarrow> (char option \<rightharpoonup> nat)" where
  "countUnmatched guess solution letterOccurrences i =
     (let nextLetter = charAt solution i in
      if charAt guess i \<noteq> nextLetter
      then letterOccurrences(nextLetter \<mapsto>
             (case letterOccurrences nextLetter of None \<Rightarrow> 0 | Some n \<Rightarrow> n) + 1)
      else letterOccurrences)"

fun classify ::
  "string \<Rightarrow> string \<Rightarrow> (char option \<rightharpoonup> nat) \<Rightarrow> nat list \<Rightarrow> LetterResult list" where
  "classify guess solution letterOccurrences [] = []"
| "classify guess solution letterOccurrences (i # rest) =
     (let nextLetter = charAt guess i in
      if nextLetter = charAt solution i
      then PERFECT # classify guess solution letterOccurrences rest
      else (case letterOccurrences nextLetter of
              Some (Suc n) \<Rightarrow>
                CLOSE # classify guess solution (letterOccurrences(nextLetter \<mapsto> n)) rest
            | _ \<Rightarrow> WRONG # classify guess solution letterOccurrences rest))"

definition makeGuess :: "string \<Rightarrow> string \<Rightarrow> LetterResult list" where
  "makeGuess guess solution =
     classify guess solution
       (foldl (countUnmatched guess solution) Map.empty [0..<5]) [0..<5]"

section \<open>Constraint tracker\<close>

text \<open>Assignment \<open>counts[letter] = (counts[letter] ?? 0) + 1\<close> on an object.\<close>

definition increment :: "'k \<Rightarrow> ('k \<times> nat) list \<Rightarrow> ('k \<times> nat) list" where
  "increment letter counts =
     AList.update letter ((case map_of counts letter of None \<Rightarrow> 0 | Some n \<Rightarrow> n) + 1) counts"

text \<open>A \<open>Set\<close> is the list of its elements in insertion order.\<close>

definition setAdd :: "'a \<Rightarrow> 'a list \<Rightarrow> 'a list" where
  "setAdd x s = (if x \<in> set s then s else s @ [x])"

definition newSet :: "'a list \<Rightarrow> 'a list" where
  "newSet xs = foldl (\<lambda>s x. setAdd x s) [] xs"

text \<open>The three glyphs appended to \<open>guessResult\<close>, as their UTF-8 bytes.\<close>

definition greenSquare :: string where
  "greenSquare = [CHR 0xF0, CHR 0x9F, CHR 0x9F, CHR 0xA9]"

definition yellowSquare :: string where
  "yellowSquare = [CHR 0xF0, CHR 0x9F, CHR 0x9F, CHR 0xA8]"

definition redSquare :: string where
  "redSquare = [CHR 0xF0, CHR 0x9F, CHR 0x9F, CHR 0xA5]"

text \<open>
  The loop variables of \<open>updateKnown\<close>, in the order
  \<open>(knownFixed, newGood, newBad, badPositions, guessResult)\<close>, and one iteration of its
  loop over \<open>response.entries()\<close>.
\<close>

type_synonym scan =
  "string \<times> LetterCount \<times> char option list \<times> (char option \<times> nat list) list \<times> string"

fun scanStep :: "string \<Rightarrow> string \<Rightarrow> scan \<Rightarrow> nat \<times> LetterResult \<Rightarrow> scan" where
  "scanStep guess oldFixed (knownFixed, newGood, newBad, badPos, result) (i, letterResult) =
     (let nextLetter = charAt guess i in
      case letterResult of
        PERFECT \<Rightarrow>
          (knownFixed @ toStr nextLetter, increment nextLetter newGood, newBad, badPos,
           result @ greenSquare)
      | CLOSE \<Rightarrow>
          (knownFixed @ toStr (charAt oldFixed i), increment nextLetter newGood, newBad,
           AList.update nextLetter
             (setAdd i (newSet (case map_of badPos nextLetter of None \<Rightarrow> [] | Some s \<Rightarrow> s)))
             badPos,
           result @ yellowSquare)
      | WRONG \<Rightarrow>
          (knownFixed @ toStr (charAt oldFixed i), newGood, setAdd nextLetter newBad, badPos,
           result @ redSquare))"

definition scanResponse :: "string \<Rightarrow> LetterResult list \<Rightarrow> known \<Rightarrow> scan" where
  "scanResponse guess response old =
     foldl (scanStep guess (fixed old))
       ([], [], [], badPositions old, guessResult old)
       (zip [0..<length response] response)"

text \<open>
  After the loop: the good counts are the larger of the old and the new count for every
  letter of either map, every letter of \<open>newBad\<close> gets the bound of its good count plus
  one over the old bounds, and the other fields are what the loop left.
\<close>

definition updateKnown :: "string \<Rightarrow> LetterResult list \<Rightarrow> known \<Rightarrow> known" where
  "updateKnown guess response old =
     (case scanResponse guess response old of
        (knownFixed, newGood, newBad, badPos, result) \<Rightarrow>
          (let goodLetters =
                 map (\<lambda>letter. (letter,
                        max (case map_of (good old) letter of None \<Rightarrow> 0 | Some n \<Rightarrow> n)
                            (case map_of newGood letter of None \<Rightarrow> 0 | Some n \<Rightarrow> n)))
                   (newSet (map fst (good old) @ map fst newGood));
               badLetters =
                 foldl (\<lambda>obj letter. AList.update letter
                          ((case map_of goodLetters letter of None \<Rightarrow> 0 | Some n \<Rightarrow> n) + 1) obj)
                   (bad old) newBad
           in \<lparr> fixed = knownFixed, good = goodLetters, bad = badLetters,
                badPositions = badPos, guessResult = result @ '' '' @ guess @ [CHR 0x0A],
                solved = list_all (\<lambda>position. position = PERFECT) response \<rparr>))"

section \<open>Letter scorer and word ranker\<close>

definition countLetters :: "string \<Rightarrow> (char \<times> nat) list" where
  "countLetters word = foldl (\<lambda>counts letter. increment letter counts) [] word"

text \<open>
  The inner loop of \<open>scoreLetters\<close> over \<open>range(4)\<close> on one row \<open>letters[letter]\<close>:
  \<open>row[i] ??= 0\<close>, then \<open>row[i] += 1\<close> when \<open>i < occurrences\<close>. A row is either the fresh
  \<open>[]\<close> or has its four entries, so slot \<open>i\<close> is missing only at the end of the row.
\<close>

definition bumpSlot :: "nat \<Rightarrow> int list \<Rightarrow> nat \<Rightarrow> int list" where
  "bumpSlot occurrences row i =
     (let row' = (if i < length row then row else row @ [0]) in
      if i < occurrences then row'[i := row' ! i + 1] else row')"

definition bumpRow :: "nat \<Rightarrow> int list \<Rightarrow> int list" where
  "bumpRow occurrences row = foldl (bumpSlot occurrences) row [0..<4]"

definition tally :: "LetterScores \<Rightarrow> string \<Rightarrow> LetterScores" where
  "tally letters word =
     foldl (\<lambda>letters (letter, occurrences).
              AList.update letter
                (bumpRow occurrences
                   (case map_of letters letter of None \<Rightarrow> [] | Some row \<Rightarrow> row)) letters)
       letters (countLetters word)"

text \<open>
  The test \<open>score > effectiveCount / 2\<close> divides numbers, not integers; on integers it is
  \<open>2 * score > effectiveCount\<close>.
\<close>

definition scoreLetters :: "string list \<Rightarrow> LetterScores" where
  "scoreLetters words =
     (let effectiveCount = int (length words) in
      map (\<lambda>(letter, scores).
             (letter, map (\<lambda>score. if 2 * score > effectiveCount
                                   then effectiveCount - score else score) scores))
        (foldl tally [] words))"

text \<open>\<open>letters[letter]?.[count - 1] ?? 0\<close>: a missing row or a missing slot gives 0.\<close>

definition letterValue :: "LetterScores \<Rightarrow> char \<times> nat \<Rightarrow> int" where
  "letterValue letters entry =
     (case entry of (letter, count) \<Rightarrow>
        (case map_of letters letter of
           None \<Rightarrow> 0
         | Some scores \<Rightarrow>
             if 1 \<le> count \<and> count - 1 < length scores then scores ! (count - 1) else 0))"

definition baseScore :: "string \<Rightarrow> LetterScores \<Rightarrow> int" where
  "baseScore word letters = foldl (+) 0 (map (letterValue letters) (countLetters word))"

text \<open>
  Scores are JavaScript numbers, that is IEEE 754 doubles; a double is modelled as the
  rational number it denotes. \<open>double x\<close> is the double nearest to the rational \<open>x\<close>, the
  result of an arithmetic operation whose exact result is \<open>x\<close>: \<open>x\<close> is rounded to a
  multiple of the spacing \<open>quantum\<close> of the doubles around it (53 significant bits, the
  spacing \<open>2^-1074\<close> of the subnormal numbers at the bottom), to the even multiple when it
  lies halfway between two. A result of \<open>2^1024\<close> and more, which is \<open>Infinity\<close> in
  JavaScript, is outside the model; scores are sums of word counts and stay far below.
  \<open>NaN\<close> does not arise from sums and products of finite numbers.
\<close>

definition roundHalfEven :: "rat \<Rightarrow> int" where
  "roundHalfEven m =
     (let f = \<lfloor>m\<rfloor>; r = m - of_int f in
      if r < 1 / 2 then f else if 1 / 2 < r then f + 1 else if even f then f else f + 1)"

fun quantumUp :: "nat \<Rightarrow> rat \<Rightarrow> rat \<Rightarrow> rat" where
  "quantumUp 0 x q = q"
| "quantumUp (Suc n) x q = (if 2 \<le> x then quantumUp n (x / 2) (2 * q) else q)"

fun quantumDown :: "nat \<Rightarrow> rat \<Rightarrow> rat \<Rightarrow> rat" where
  "quantumDown 0 x q = q"
| "quantumDown (Suc n) x q = (if x < 1 then quantumDown n (2 * x) (q / 2) else q)"

text \<open>
  The spacing of the doubles at a positive \<open>x\<close>: \<open>2^-52\<close> for \<open>x\<close> from 1 up to 2, twice
  as much for every doubling of \<open>x\<close> up to the largest exponent 1023, half as much for every
  halving down to the smallest exponent -1022.
\<close>

definition quantum :: "rat \<Rightarrow> rat" where
  "quantum x =
     (if 1 \<le> x then quantumUp 1023 x (1 / 2 ^ 52) else quantumDown 1022 x (1 / 2 ^ 52))"

definition double :: "rat \<Rightarrow> rat" where
  "double x =
     (if x = 0 then 0
      else sgn x * (of_int (roundHalfEven (\<bar>x\<bar> / quantum \<bar>x\<bar>)) * quantum \<bar>x\<bar>))"

text \<open>The literal \<open>1.1\<close>: the double nearest to 11/10.\<close>

definition onePointOne :: rat where
  "onePointOne = 2476979795053773 / 2251799813685248"

text \<open>
  The base score is a sum of integer counts, which doubles hold exactly below \<open>2^53\<close>.
  The bonus for a word of the candidate list, \<open>baseScore * 1.1 + 1\<close>, rounds twice.
\<close>

definition scoreWord :: "string \<Rightarrow> LetterScores \<Rightarrow> string list \<Rightarrow> rat" where
  "scoreWord word letters validWords =
     (if word \<notin> set validWords then of_int (baseScore word letters)
      else double (double (of_int (baseScore word letters) * onePointOne) + 1))"

text \<open>
  \<open>scoreWords\<close> pairs each board's word list with the letter table of the same index;
  its only caller builds one table per board. The sum \<open>acc + value\<close> rounds at every
  step.
\<close>

definition scoreWords :: "string \<Rightarrow> LetterScores list \<Rightarrow> string list list \<Rightarrow> rat" where
  "scoreWords word threadLetterScores threadWords =
     foldl (\<lambda>acc value. double (acc + value)) 0
       (map (\<lambda>(words, letters). scoreWord word letters words)
          (zip threadWords threadLetterScores))"

datatype error = TypeError

text \<open>\<open>Array.prototype.reduce\<close> without an initial value: an empty array throws.\<close>

definition reduce1 :: "('a \<Rightarrow> 'a \<Rightarrow> 'a) \<Rightarrow> 'a list \<Rightarrow> error + 'a" where
  "reduce1 f xs = (case xs of [] \<Rightarrow> Inl TypeError | x # rest \<Rightarrow> Inr (foldl f x rest))"

text \<open>The callback of the reduction, for a scoring function \<open>score\<close>.\<close>

definition better :: "('a \<Rightarrow> 'b::linorder) \<Rightarrow> 'a \<Rightarrow> 'a \<Rightarrow> 'a" where
  "better score best next = (if score best > score next then best else next)"

definition chooseWord :: "string list list \<Rightarrow> string list \<Rightarrow> error + string" where
  "chooseWord threadWords guessPool =
     (let threadLetterScores = map scoreLetters threadWords in
      reduce1 (better (\<lambda>word. scoreWords word threadLetterScores threadWords)) guessPool)"

section \<open>Board coordinator\<close>

text \<open>
  The normal game mode, \<open>gameModes[GameModeName.NORMAL].run\<close>. Its configuration is the
  flags it reads; printing is left out. What the program obtains from outside is a
  parameter: the dictionary \<open>loadAllWords()\<close> returns, the indices
  \<open>Math.floor(Math.random() * allWords.length)\<close> of the random draws, the answer
  \<open>requestGuess\<close> accepts in each round and the result \<open>requestResult\<close> accepts in each
  round for each board.
\<close>

record config =
  hardMode :: bool
  freeMode :: bool
  randomMode :: bool
  threadCount :: nat
  roundCount :: nat

record world =
  allWords :: "string list"
  randomIndex :: "nat \<Rightarrow> nat"
  requestGuess :: "nat \<Rightarrow> string"
  requestResult :: "nat \<Rightarrow> nat \<Rightarrow> LetterResult list"

text \<open>
  How the process ends: \<open>Usage\<close> is \<open>printUsage()\<close>, \<open>UnknownWord\<close> the exit on a solution
  outside the dictionary, \<open>WordNotKnown\<close> the exit on a board without candidates, \<open>Uncaught\<close>
  an exception nobody catches, \<open>Score\<close> the exit with status 0 and \<open>YouLost\<close> the exit when
  the rounds are used up.
\<close>

datatype exit =
    Usage
  | UnknownWord string
  | WordNotKnown nat known
  | Uncaught error
  | Score
  | YouLost

definition elemAt :: "'a list \<Rightarrow> nat \<Rightarrow> 'a option" where
  "elemAt xs i = (if i < length xs then Some (xs ! i) else None)"

text \<open>
  The checks before the first round. A solution is \<open>None\<close> when a random draw reads the
  empty dictionary. The result is the solutions and \<open>hasSolutions\<close>.
\<close>

definition unknownSolution :: "string list \<Rightarrow> string option \<Rightarrow> bool" where
  "unknownSolution dictionary solution =
     (case solution of None \<Rightarrow> False | Some s \<Rightarrow> s \<noteq> [] \<and> s \<notin> set dictionary)"

definition start :: "config \<Rightarrow> world \<Rightarrow> string list \<Rightarrow> exit + string option list \<times> bool" where
  "start cfg w args =
     (if args \<noteq> [] \<and> length args \<noteq> threadCount cfg then Inl Usage
      else if randomMode cfg \<and> args \<noteq> [] then Inl Usage
      else
        (let solutions =
               (if randomMode cfg
                then map (\<lambda>n. elemAt (allWords w) (randomIndex w n)) [0..<threadCount cfg]
                else map Some args);
             hasSolutions = (randomMode cfg \<or> args \<noteq> [])
         in case find (unknownSolution (allWords w)) solutions of
              Some (Some s) \<Rightarrow> Inl (UnknownWord s)
            | _ \<Rightarrow> Inr (solutions, hasSolutions)))"

definition wordsToGuess :: "known list \<Rightarrow> nat" where
  "wordsToGuess threadKnown = length (filter (\<lambda>k. \<not> solved k) threadKnown)"

definition guessPool ::
  "config \<Rightarrow> string list \<Rightarrow> nat \<Rightarrow> known list \<Rightarrow> string list list \<Rightarrow> string list" where
  "guessPool cfg dictionary roundNumber threadKnown threadWords =
     (if hardMode cfg
         \<or> int roundNumber \<ge> int (roundCount cfg) - int (wordsToGuess threadKnown)
      then concat threadWords else dictionary)"

text \<open>
  The choice of the guess in a round: the guess pool, when the round computes one (the
  user gave no guess), and the guess or the exception \<open>chooseWord\<close> throws.
\<close>

definition pickGuess ::
  "config \<Rightarrow> world \<Rightarrow> nat \<Rightarrow> known list \<Rightarrow> string list list
     \<Rightarrow> string list option \<times> (error + string)" where
  "pickGuess cfg w roundNumber threadKnown threadWords =
     (let guess = (if freeMode cfg then requestGuess w roundNumber else []) in
      if guess = []
      then (let pool = guessPool cfg (allWords w) roundNumber threadKnown threadWords in
            (Some pool, chooseWord threadWords pool))
      else (None, Inr guess))"

definition respond ::
  "world \<Rightarrow> string option list \<Rightarrow> bool \<Rightarrow> nat \<Rightarrow> string \<Rightarrow> nat \<Rightarrow> error + LetterResult list" where
  "respond w solutions hasSolutions roundNumber guess i =
     (if hasSolutions
      then (case elemAt solutions i of
              Some (Some solution) \<Rightarrow> Inr (makeGuess guess solution)
            | _ \<Rightarrow> Inl TypeError)
      else Inr (requestResult w roundNumber i))"

text \<open>The callback of \<open>mapAsyncSequentially\<close>, board after board.\<close>

fun updateBoards ::
  "(nat \<Rightarrow> error + LetterResult list) \<Rightarrow> string \<Rightarrow> (nat \<times> known) list \<Rightarrow> error + known list" where
  "updateBoards response guess [] = Inr []"
| "updateBoards response guess ((i, k) # rest) =
     (if solved k
      then (case updateBoards response guess rest of
              Inl e \<Rightarrow> Inl e | Inr ks \<Rightarrow> Inr (k # ks))
      else (case response i of
              Inl e \<Rightarrow> Inl e
            | Inr r \<Rightarrow>
                (case updateBoards response guess rest of
                   Inl e \<Rightarrow> Inl e | Inr ks \<Rightarrow> Inr (updateKnown guess r k # ks))))"

text \<open>The callback of \<open>threadWords.map\<close>, which leaves the process on an empty list.\<close>

fun narrow :: "known list \<Rightarrow> (nat \<times> string list) list \<Rightarrow> exit + string list list" where
  "narrow newKnown [] = Inr []"
| "narrow newKnown ((i, words) # rest) =
     (case elemAt newKnown i of
        None \<Rightarrow> Inl (Uncaught TypeError)
      | Some k \<Rightarrow>
          if solved k
          then (case narrow newKnown rest of Inl x \<Rightarrow> Inl x | Inr r \<Rightarrow> Inr ([] # r))
          else (let remainingWords = filterWords words k in
                if remainingWords = [] then Inl (WordNotKnown i k)
                else (case narrow newKnown rest of
                        Inl x \<Rightarrow> Inl x | Inr r \<Rightarrow> Inr (remainingWords # r))))"

text \<open>
  The rest of a round once its guess is chosen, on \<open>(threadKnown, threadWords)\<close>: the
  process ends in it (\<open>Stop\<close>, with \<open>threadKnown\<close> as it is then), the loop is left by
  \<open>break\<close> (\<open>Break\<close>) or the next round follows (\<open>Continue\<close>).
\<close>

datatype step =
    Stop exit "known list"
  | Break "known list" "string list list"
  | Continue "known list" "string list list"

definition applyGuess ::
  "world \<Rightarrow> string option list \<Rightarrow> bool \<Rightarrow> nat \<Rightarrow> string \<Rightarrow> known list \<Rightarrow> string list list \<Rightarrow> step" where
  "applyGuess w solutions hasSolutions roundNumber guess threadKnown threadWords =
     (case updateBoards (respond w solutions hasSolutions roundNumber guess) guess
             (zip [0..<length threadKnown] threadKnown) of
        Inl e \<Rightarrow> Stop (Uncaught e) threadKnown
      | Inr newKnown \<Rightarrow>
          if list_all solved newKnown then Break newKnown threadWords
          else (case narrow newKnown (zip [0..<length threadWords] threadWords) of
                  Inl x \<Rightarrow> Stop x newKnown
                | Inr newWords \<Rightarrow> Continue newKnown newWords))"

text \<open>
  What is recorded of a round that was started: the value of \<open>roundNumber\<close>, \<open>threadKnown\<close>
  and \<open>threadWords\<close> as the round finds them, the guess pool it computes, if any, and the
  guess it arrives at.
\<close>

record started =
  roundOf :: nat
  knownOf :: "known list"
  wordsOf :: "string list list"
  poolOf :: "string list option"
  guessOf :: "error + string"

text \<open>
  The loop over \<open>range(roundCount)\<close> and the exit behind it. The result is the way the
  process ends, the record of the rounds that were started, in their order, and
  \<open>threadKnown\<close> at the end.
\<close>

definition finish :: "known list \<Rightarrow> exit" where
  "finish threadKnown = (if list_all solved threadKnown then Score else YouLost)"

fun playRounds ::
  "config \<Rightarrow> world \<Rightarrow> string option list \<Rightarrow> bool \<Rightarrow> nat list \<Rightarrow> known list \<Rightarrow> string list list
     \<Rightarrow> exit \<times> started list \<times> known list" where
  "playRounds cfg w solutions hasSolutions [] threadKnown threadWords =
     (finish threadKnown, [], threadKnown)"
| "playRounds cfg w solutions hasSolutions (roundNumber # rest) threadKnown threadWords =
     (case pickGuess cfg w roundNumber threadKnown threadWords of
        (pool, picked) \<Rightarrow>
          (let this = \<lparr>roundOf = roundNumber, knownOf = threadKnown, wordsOf = threadWords,
                       poolOf = pool, guessOf = picked\<rparr> in
           case picked of
             Inl e \<Rightarrow> (Uncaught e, [this], threadKnown)
           | Inr guess \<Rightarrow>
               (case applyGuess w solutions hasSolutions roundNumber guess threadKnown
                       threadWords of
                  Stop x newKnown \<Rightarrow> (x, [this], newKnown)
                | Break newKnown newWords \<Rightarrow> (finish newKnown, [this], newKnown)
                | Continue newKnown newWords \<Rightarrow>
                    (case playRounds cfg w solutions hasSolutions rest newKnown newWords of
                       (x, guesses, lastKnown) \<Rightarrow> (x, this # guesses, lastKnown)))))"

definition run :: "config \<Rightarrow> world \<Rightarrow> string list \<Rightarrow> exit \<times> started list \<times> known list" where
  "run cfg w args =
     (case start cfg w args of
        Inl x \<Rightarrow> (x, [], [])
      | Inr (solutions, hasSolutions) \<Rightarrow>
          playRounds cfg w solutions hasSolutions [0..<roundCount cfg]
            (replicate (threadCount cfg) nothingKnown)
            (replicate (threadCount cfg) (allWords w)))"

section \<open>Constraint tracker on a store of objects\<close>

text \<open>
  \<open>updateKnown\<close> once more, with the objects it reads, creates and writes made explicit.
  The store is the list of all objects; an address is a position in it, and a new object is
  appended. The objects are the records of counts (\<open>good\<close>, \<open>bad\<close>, \<open>newGood\<close>, the results
  of \<open>Object.fromEntries\<close> and of the spread), the records of position sets
  (\<open>badPositions\<close>), which hold the addresses of their sets, the sets of numbers and the set
  of letters \<open>newBad\<close>. Strings, numbers and booleans are values. The arrays and sets that
  exist only inside one expression (\<open>Object.keys\<close>, \<open>[...newBad]\<close>) are not stored.
\<close>

type_synonym addr = nat

datatype obj =
    Counts LetterCount
  | Positions "(char option \<times> addr) list"
  | NumberSet "nat list"
  | LetterSet "char option list"

type_synonym store = "obj list"

record knownRef =
  fixedOf :: string
  goodAt :: addr
  badAt :: addr
  badPositionsAt :: addr
  guessResultOf :: string
  solvedOf :: bool

definition alloc :: "obj \<Rightarrow> store \<Rightarrow> addr \<times> store" where
  "alloc v h = (length h, h @ [v])"

text \<open>
  Reading an object through a reference of its type. A reference of the program always
  points to an object of its type; elsewhere the accessors return the empty object.
\<close>

definition countsAt :: "store \<Rightarrow> addr \<Rightarrow> LetterCount" where
  "countsAt h a = (case elemAt h a of Some (Counts c) \<Rightarrow> c | _ \<Rightarrow> [])"

definition positionsAt :: "store \<Rightarrow> addr \<Rightarrow> (char option \<times> addr) list" where
  "positionsAt h a = (case elemAt h a of Some (Positions p) \<Rightarrow> p | _ \<Rightarrow> [])"

definition numbersAt :: "store \<Rightarrow> addr \<Rightarrow> nat list" where
  "numbersAt h a = (case elemAt h a of Some (NumberSet s) \<Rightarrow> s | _ \<Rightarrow> [])"

definition lettersAt :: "store \<Rightarrow> addr \<Rightarrow> char option list" where
  "lettersAt h a = (case elemAt h a of Some (LetterSet s) \<Rightarrow> s | _ \<Rightarrow> [])"

text \<open>
  One iteration of the loop. \<open>newGood\<close> and \<open>newBad\<close> are the addresses of the two objects
  the loop writes to; the loop variables are \<open>(knownFixed, badPositions, guessResult)\<close>,
  with \<open>badPositions\<close> an address. In the \<open>CLOSE\<close> case the entries of the current
  \<open>badPositions\<close> object are read for the spread, \<open>new Set(badPositions[nextLetter])\<close>
  creates a set with the elements of the letter's set, \<open>.add(i)\<close> writes to the new set,
  and the object literal creates a new record that holds the address of the new set.
\<close>

fun scanStepOn ::
  "string \<Rightarrow> string \<Rightarrow> addr \<Rightarrow> addr \<Rightarrow> (string \<times> addr \<times> string) \<times> store
     \<Rightarrow> nat \<times> LetterResult \<Rightarrow> (string \<times> addr \<times> string) \<times> store" where
  "scanStepOn guess oldFixed newGood newBad ((knownFixed, badPos, result), h) (i, letterResult) =
     (let nextLetter = charAt guess i in
      case letterResult of
        PERFECT \<Rightarrow>
          ((knownFixed @ toStr nextLetter, badPos, result @ greenSquare),
           h[newGood := Counts (increment nextLetter (countsAt h newGood))])
      | CLOSE \<Rightarrow>
          (let h1 = h[newGood := Counts (increment nextLetter (countsAt h newGood))];
               entries = positionsAt h1 badPos;
               (s, h2) = alloc (NumberSet (newSet (case map_of entries nextLetter of
                                                    None \<Rightarrow> [] | Some a \<Rightarrow> numbersAt h1 a))) h1;
               h3 = h2[s := NumberSet (setAdd i (numbersAt h2 s))];
               (p, h4) = alloc (Positions (AList.update nextLetter s entries)) h3
           in ((knownFixed @ toStr (charAt oldFixed i), p, result @ yellowSquare), h4))
      | WRONG \<Rightarrow>
          ((knownFixed @ toStr (charAt oldFixed i), badPos, result @ redSquare),
           h[newBad := LetterSet (setAdd nextLetter (lettersAt h newBad))]))"

definition updateKnownOn ::
  "string \<Rightarrow> LetterResult list \<Rightarrow> knownRef \<Rightarrow> store \<Rightarrow> knownRef \<times> store" where
  "updateKnownOn guess response old h0 =
     (let (newGood, h1) = alloc (Counts []) h0;
          (newBad, h2) = alloc (LetterSet []) h1;
          ((knownFixed, badPos, result), h3) =
             foldl (scanStepOn guess (fixedOf old) newGood newBad)
               (([], badPositionsAt old, guessResultOf old), h2)
               (zip [0..<length response] response);
          oldGood = countsAt h3 (goodAt old);
          (goodLetters, h4) =
             alloc (Counts
               (map (\<lambda>letter. (letter,
                       max (case map_of oldGood letter of None \<Rightarrow> 0 | Some n \<Rightarrow> n)
                           (case map_of (countsAt h3 newGood) letter of
                              None \<Rightarrow> 0 | Some n \<Rightarrow> n)))
                  (newSet (map fst oldGood @ map fst (countsAt h3 newGood))))) h3;
          (badLetters, h5) =
             alloc (Counts
               (foldl (\<lambda>obj letter. AList.update letter
                         ((case map_of (countsAt h4 goodLetters) letter of
                             None \<Rightarrow> 0 | Some n \<Rightarrow> n) + 1) obj)
                  (countsAt h4 (badAt old)) (lettersAt h4 newBad))) h4
      in (\<lparr> fixedOf = knownFixed, goodAt = goodLetters, badAt = badLetters,
            badPositionsAt = badPos,
            guessResultOf = result @ '' '' @ guess @ [CHR 0x0A],
            solvedOf = list_all (\<lambda>position. position = PERFECT) response \<rparr>, h5))"

text \<open>
  What a reference to a constraint state shows in a store, and when all the references of
  a constraint state point into the store.
\<close>

definition view :: "store \<Rightarrow> knownRef \<Rightarrow> known" where
  "view h k =
     \<lparr> fixed = fixedOf k, good = countsAt h (goodAt k), bad = countsAt h (badAt k),
       badPositions = map (\<lambda>(letter, a). (letter, numbersAt h a))
                        (positionsAt h (badPositionsAt k)),
       guessResult = guessResultOf k, solved = solvedOf k \<rparr>"

definition inStore :: "store \<Rightarrow> knownRef \<Rightarrow> bool" where
  "inStore h k =
     (goodAt k < length h \<and> badAt k < length h \<and> badPositionsAt k < length h
      \<and> list_all (\<lambda>(letter, a). a < length h) (positionsAt h (badPositionsAt k)))"

section \<open>Words and constraint states of the game\<close>

text \<open>
  A word is what \<open>requestGuess\<close> accepts with \<open>/^[a-z]{5}$/\<close>: five lowercase letters.
  A constraint state is well formed when its fixed pattern has five characters, each a
  lowercase letter or the wildcard, and the keys of its three maps are lowercase letters.
\<close>

definition lowercase :: "char \<Rightarrow> bool" where
  "lowercase c = (c \<in> set ''abcdefghijklmnopqrstuvwxyz'')"

definition isWord :: "string \<Rightarrow> bool" where
  "isWord word = (length word = 5 \<and> list_all lowercase word)"

definition letterKey :: "char option \<Rightarrow> bool" where
  "letterKey key = (case key of None \<Rightarrow> False | Some c \<Rightarrow> lowercase c)"

definition wellFormed :: "known \<Rightarrow> bool" where
  "wellFormed k =
     (length (fixed k) = 5
      \<and> list_all (\<lambda>c. c = CHR ''.'' \<or> lowercase c) (fixed k)
      \<and> list_all letterKey (map fst (good k))
      \<and> list_all letterKey (map fst (bad k))
      \<and> list_all letterKey (map fst (badPositions k)))"

text \<open>
  The constraint states of a board: the empty state, and every state the tracker returns
  for a state of the board, a guess of five characters and five results.
\<close>

inductive tracked :: "known \<Rightarrow> bool" where
  tracked_start: "tracked nothingKnown"
| tracked_update: "tracked old \<Longrightarrow> length guess = 5 \<Longrightarrow> length response = 5
     \<Longrightarrow> tracked (updateKnown guess response old)"

section \<open>Invariants used in the proofs\<close>

text \<open>Every row of a letter table has its four entries.\<close>

definition rows4 :: "LetterScores \<Rightarrow> bool" where
  "rows4 letters = (\<forall>(letter, row)\<in>set letters. length row = 4)"

text \<open>
  The loop of the tracker on a store and the loop of \<open>updateKnown\<close> are in step: the
  strings agree, the store holds \<open>newGood\<close> and \<open>newBad\<close> at the two addresses created
  first, and the current \<open>badPositions\<close> object and its sets lie elsewhere in the store
  and show the \<open>badPositions\<close> of \<open>updateKnown\<close>.
\<close>

definition related ::
  "store \<Rightarrow> (string \<times> addr \<times> string) \<times> store \<Rightarrow> scan \<Rightarrow> bool" where
  "related h0 c p =
     (case c of ((knownFixed', badPos, result'), h) \<Rightarrow>
      case p of (knownFixed, newGood, newBad, bp, result) \<Rightarrow>
        knownFixed' = knownFixed \<and> result' = result
        \<and> length h0 + 2 \<le> length h
        \<and> countsAt h (length h0) = newGood
        \<and> lettersAt h (Suc (length h0)) = newBad
        \<and> badPos < length h \<and> badPos \<noteq> length h0 \<and> badPos \<noteq> Suc (length h0)
        \<and> (\<forall>(letter, a)\<in>set (positionsAt h badPos).
              a < length h \<and> a \<noteq> length h0 \<and> a \<noteq> Suc (length h0))
        \<and> map (\<lambda>(letter, a). (letter, numbersAt h a)) (positionsAt h badPos) = bp)"

section \<open>Properties of the candidate filter\<close>

lemma matchesAt_length: "matchesAt pat cs \<Longrightarrow> length pat \<le> length cs"
  by (induction pat cs rule: matchesAt.induct) auto

lemma regexTest_length: "regexTest pat cs \<Longrightarrow> length pat \<le> length cs"
  by (induction cs) (auto dest: matchesAt_length split: if_splits)

lemma regexTest_same_length:
  assumes "length pat = length cs"
  shows "regexTest pat cs = matchesAt pat cs"
proof (cases cs)
  case Nil
  then show ?thesis by simp
next
  case (Cons c rest)
  then have "\<not> regexTest pat rest"
    using assms regexTest_length [of pat rest] by auto
  then show ?thesis using Cons by simp
qed

lemma matchesAt_positions:
  assumes "length pat = length cs"
  shows "matchesAt pat cs = (\<forall>i<length pat. matchesChar (pat ! i) (cs ! i))"
  using assms
proof (induction pat cs rule: list_induct2)
  case Nil
  show ?case by simp
next
  case (Cons p ps c cs)
  show ?case
    by (simp add: Cons.IH All_less_Suc2)
qed

lemma countMatches_single: "countMatches [c] s = count_list s c"
  by (induction s) auto

lemma countOccurrences_letter: "countOccurrences s (Some c) = count_list s c"
  by (simp add: countOccurrences_def toStr_def countMatches_single)

lemma lowercase_matchesChar:
  assumes "lowercase c"
  shows "matchesChar p c = (p = CHR ''.'' \<or> p = c)"
  using assms by (auto simp: matchesChar_def lowercase_def)


lemma letterKey_Some:
  assumes "list_all letterKey (map fst al)" and "(key, v) \<in> set al"
  shows "\<exists>c. key = Some c"
proof -
  have "key \<in> set (map fst al)"
    using assms(2) by force
  then have "letterKey key"
    using assms(1) unfolding list_all_iff by blast
  then show ?thesis
    by (cases key) (simp_all add: letterKey_def)
qed

lemma letterKey_entries:
  assumes "list_all letterKey (map fst al)"
  shows "list_all P al = (\<forall>c v. (Some c, v) \<in> set al \<longrightarrow> P (Some c, v))"
proof
  assume "list_all P al"
  then show "\<forall>c v. (Some c, v) \<in> set al \<longrightarrow> P (Some c, v)"
    by (simp add: list_all_iff)
next
  assume r: "\<forall>c v. (Some c, v) \<in> set al \<longrightarrow> P (Some c, v)"
  have "P e" if "e \<in> set al" for e
  proof -
    obtain key v where e: "e = (key, v)" by (cases e)
    have "(key, v) \<in> set al" using that e by simp
    from letterKey_Some [OF assms this] obtain c where "key = Some c" ..
    then show ?thesis using r e that by blast
  qed
  then show "list_all P al" by (simp add: list_all_iff)
qed

lemma differsAt_word:
  assumes "length word = 5"
  shows "differsAt word p (Some c) = (p < 5 \<longrightarrow> word ! p \<noteq> c)"
  using assms by (simp add: differsAt_def charAt_def)

text \<open>
  C3. For a well-formed constraint state, a word of five lowercase letters is in the
  filtered list exactly when it is in the word list, agrees with the fixed pattern at each
  of the five positions (a wildcard agrees with every letter), holds every letter of
  \<open>good\<close> at least as often as recorded, holds every letter of \<open>bad\<close> less often than
  recorded, and holds no letter of \<open>badPositions\<close> at a position listed for it. With
  \<open>bad['e'] = 2\<close> a word with one \<open>e\<close> stays and a word with two is dropped.
\<close>

theorem filterWords_survivors:
  assumes "wellFormed k" and "isWord word"
  shows "word \<in> set (filterWords words k) \<longleftrightarrow>
     word \<in> set words
     \<and> (\<forall>i<5. fixed k ! i = CHR ''.'' \<or> fixed k ! i = word ! i)
     \<and> (\<forall>c n. (Some c, n) \<in> set (good k) \<longrightarrow> n \<le> count_list word c)
     \<and> (\<forall>c n. (Some c, n) \<in> set (bad k) \<longrightarrow> count_list word c < n)
     \<and> (\<forall>c ps p. (Some c, ps) \<in> set (badPositions k) \<longrightarrow> p \<in> set ps \<longrightarrow> p < 5
            \<longrightarrow> word ! p \<noteq> c)"
proof -
  have len: "length (fixed k) = 5" "length word = 5"
    using assms by (simp_all add: wellFormed_def isWord_def)
  have keys: "list_all letterKey (map fst (good k))" "list_all letterKey (map fst (bad k))"
      "list_all letterKey (map fst (badPositions k))"
    using assms(1) by (simp_all add: wellFormed_def)
  have low: "\<And>i. i < 5 \<Longrightarrow> lowercase (word ! i)"
    using assms(2) by (simp add: isWord_def list_all_length)
  have "regexTest (fixed k) word = matchesAt (fixed k) word"
    using len by (simp add: regexTest_same_length)
  also have "\<dots> = (\<forall>i<5. matchesChar (fixed k ! i) (word ! i))"
    using len by (simp add: matchesAt_positions)
  also have "\<dots> = (\<forall>i<5. fixed k ! i = CHR ''.'' \<or> fixed k ! i = word ! i)"
    using low by (simp add: lowercase_matchesChar)
  finally have pattern: "regexTest (fixed k) word
      = (\<forall>i<5. fixed k ! i = CHR ''.'' \<or> fixed k ! i = word ! i)" .
  have g: "list_all (\<lambda>(letter, count). countOccurrences word letter \<ge> count) (good k)
      = (\<forall>c n. (Some c, n) \<in> set (good k) \<longrightarrow> n \<le> count_list word c)"
    by (simp add: letterKey_entries [OF keys(1)] countOccurrences_letter)
  have b: "list_all (\<lambda>(letter, count). countOccurrences word letter < count) (bad k)
      = (\<forall>c n. (Some c, n) \<in> set (bad k) \<longrightarrow> count_list word c < n)"
    by (simp add: letterKey_entries [OF keys(2)] countOccurrences_letter)
  have p: "list_all (\<lambda>(letter, positions).
            list_all (\<lambda>position. differsAt word position letter) positions) (badPositions k)
      = (\<forall>c ps p. (Some c, ps) \<in> set (badPositions k) \<longrightarrow> p \<in> set ps \<longrightarrow> p < 5
            \<longrightarrow> word ! p \<noteq> c)"
    unfolding letterKey_entries [OF keys(3)]
    by (simp add: differsAt_word [OF len(2)] list_all_iff) blast
  show ?thesis
    by (simp only: filterWords_def set_filter mem_Collect_eq keeps_def pattern g b p)
qed

lemma all_less_5: "(\<forall>i<5::nat. P i) = (P 0 \<and> P 1 \<and> P 2 \<and> P 3 \<and> P 4)"
  by (auto simp: eval_nat_numeral less_Suc_eq)

theorem filterWords_survivors_witness:
  "''crane'' \<in> set (filterWords [''crane'', ''steel'']
       \<lparr>fixed = ''....e'', good = [(Some CHR ''e'', 1)], bad = [(Some CHR ''e'', 2)],
        badPositions = [(Some CHR ''a'', [1])], guessResult = [], solved = False\<rparr>)
   \<and> ''steel'' \<notin> set (filterWords [''crane'', ''steel'']
       \<lparr>fixed = ''....e'', good = [(Some CHR ''e'', 1)], bad = [(Some CHR ''e'', 2)],
        badPositions = [(Some CHR ''a'', [1])], guessResult = [], solved = False\<rparr>)"
  using
    filterWords_survivors [of "\<lparr>fixed = ''....e'', good = [(Some CHR ''e'', 1)],
        bad = [(Some CHR ''e'', 2)], badPositions = [(Some CHR ''a'', [1])],
        guessResult = [], solved = False\<rparr>" "''crane''" "[''crane'', ''steel'']"]
    filterWords_survivors [of "\<lparr>fixed = ''....e'', good = [(Some CHR ''e'', 1)],
        bad = [(Some CHR ''e'', 2)], badPositions = [(Some CHR ''a'', [1])],
        guessResult = [], solved = False\<rparr>" "''steel''" "[''crane'', ''steel'']"]
  by (simp add: wellFormed_def isWord_def letterKey_def lowercase_def all_less_5)


text \<open>
  C6. Filtering twice with the same constraint state gives the same list as filtering
  once, and the filtered list is the word list with some words left out, in the order the
  word list had them. The filter is a function of the word list and the constraint state:
  it reads both and changes neither.
\<close>

theorem filterWords_idempotent:
  "filterWords (filterWords words k) k = filterWords words k
   \<and> subseq (filterWords words k) words"
  by (simp add: filterWords_def)


theorem filterWords_idempotent_witness:
  "filterWords (filterWords [''crane'', ''slate'', ''eerie''] nothingKnown) nothingKnown
     = filterWords [''crane'', ''slate'', ''eerie''] nothingKnown
   \<and> subseq (filterWords [''crane'', ''slate'', ''eerie''] nothingKnown)
       [''crane'', ''slate'', ''eerie'']"
  using filterWords_idempotent [of "[''crane'', ''slate'', ''eerie'']" nothingKnown]
  by simp

section \<open>Properties of the letter scorer\<close>

lemma upt4: "[0..<4] = [0, 1, 2, 3]"
  by (simp add: upt_rec)

lemma set_update_subset: "set (AList.update k v al) \<subseteq> insert (k, v) (set al)"
  by (induction al) auto

lemma bumpRow_length:
  assumes "row = [] \<or> length row = 4"
  shows "length (bumpRow occurrences row) = 4"
  using assms by (auto simp: bumpRow_def bumpSlot_def upt4 Let_def)

lemma rows4_update:
  assumes "rows4 letters"
  shows "rows4 (AList.update letter
           (bumpRow occurrences (case map_of letters letter of None \<Rightarrow> [] | Some row \<Rightarrow> row))
           letters)"
proof -
  have "(case map_of letters letter of None \<Rightarrow> [] | Some row \<Rightarrow> row) = []
        \<or> length (case map_of letters letter of None \<Rightarrow> [] | Some row \<Rightarrow> row) = 4"
    using assms by (auto simp: rows4_def split: option.splits dest: map_of_SomeD)
  then have "length (bumpRow occurrences
      (case map_of letters letter of None \<Rightarrow> [] | Some row \<Rightarrow> row)) = 4"
    by (rule bumpRow_length)
  then show ?thesis
    using assms set_update_subset [of letter _ letters]
    unfolding rows4_def by fastforce
qed

lemma rows4_entries:
  "rows4 letters \<Longrightarrow>
   rows4 (foldl (\<lambda>letters (letter, occurrences).
              AList.update letter
                (bumpRow occurrences
                   (case map_of letters letter of None \<Rightarrow> [] | Some row \<Rightarrow> row)) letters)
       letters entries)"
proof (induction entries arbitrary: letters)
  case Nil
  then show ?case by simp
next
  case (Cons e entries)
  obtain letter occurrences where e: "e = (letter, occurrences)" by (cases e)
  show ?case
    unfolding e using Cons.IH [OF rows4_update [OF Cons.prems]] by simp
qed

lemma rows4_tally: "rows4 letters \<Longrightarrow> rows4 (tally letters word)"
  unfolding tally_def by (rule rows4_entries)

lemma rows4_foldl_tally: "rows4 letters \<Longrightarrow> rows4 (foldl tally letters words)"
  by (induction words arbitrary: letters) (simp_all add: rows4_tally)

lemma scoreLetters_row_length:
  assumes "map_of (scoreLetters words) letter = Some scores"
  shows "length scores = 4"
proof -
  have "rows4 (foldl tally [] words)"
    by (rule rows4_foldl_tally) (simp add: rows4_def)
  moreover have "(letter, scores) \<in> set (scoreLetters words)"
    using assms by (rule map_of_SomeD)
  ultimately show ?thesis
    by (auto simp: scoreLetters_def rows4_def Let_def)
qed

lemma letterValue_out_of_table:
  assumes "4 < count \<or> map_of (scoreLetters words) letter = None"
  shows "letterValue (scoreLetters words) (letter, count) = 0"
  using assms scoreLetters_row_length [of words letter]
  by (auto simp: letterValue_def split: option.splits)


lemma lookup_increment:
  "(case map_of (increment l counts) k of None \<Rightarrow> 0 | Some n \<Rightarrow> n)
   = (case map_of counts k of None \<Rightarrow> 0 | Some n \<Rightarrow> n) + (if k = l then 1 else 0)"
  by (simp add: increment_def update_conv')

lemma distinct_increment:
  "distinct (map fst counts) \<Longrightarrow> distinct (map fst (increment l counts))"
  by (simp add: increment_def distinct_update)

lemma foldl_increment:
  assumes "distinct (map fst acc)"
  shows "distinct (map fst (foldl (\<lambda>counts l. increment l counts) acc word))
     \<and> (case map_of (foldl (\<lambda>counts l. increment l counts) acc word) k of
           None \<Rightarrow> 0 | Some n \<Rightarrow> n)
       = (case map_of acc k of None \<Rightarrow> 0 | Some n \<Rightarrow> n) + count_list word k"
  using assms
proof (induction word arbitrary: acc)
  case Nil
  then show ?case by simp
next
  case (Cons l word)
  have "distinct (map fst (increment l acc))"
    using Cons.prems by (rule distinct_increment)
  from Cons.IH [OF this] show ?case
    by (auto simp: lookup_increment)
qed

lemma countLetters_entry:
  assumes "(c, n) \<in> set (countLetters word)"
  shows "n = count_list word c"
proof -
  have d: "distinct (map fst (countLetters word))"
    and v: "(case map_of (countLetters word) c of None \<Rightarrow> 0 | Some n \<Rightarrow> n)
            = count_list word c"
    using foldl_increment [of "[]" word c] by (simp_all add: countLetters_def)
  have "map_of (countLetters word) c = Some n"
    using d assms by simp
  then show ?thesis using v by simp
qed

lemma map_of_filter_other:
  "l \<noteq> c \<Longrightarrow> map_of (filter (\<lambda>e. fst e \<noteq> c) al) l = map_of al l"
  by (induction al) auto

lemma filter_update_same:
  "filter (\<lambda>e. fst e \<noteq> c) (AList.update c v al) = filter (\<lambda>e. fst e \<noteq> c) al"
  by (induction al) auto

lemma filter_increment:
  "filter (\<lambda>e. fst e \<noteq> c) (increment l counts)
   = (if l = c then filter (\<lambda>e. fst e \<noteq> c) counts
      else increment l (filter (\<lambda>e. fst e \<noteq> c) counts))"
  by (simp add: increment_def filter_update_same map_of_filter_other update_filter)

lemma foldl_increment_filter:
  "foldl (\<lambda>counts l. increment l counts) (filter (\<lambda>e. fst e \<noteq> c) acc)
     (filter (\<lambda>x. x \<noteq> c) word)
   = filter (\<lambda>e. fst e \<noteq> c) (foldl (\<lambda>counts l. increment l counts) acc word)"
proof (induction word arbitrary: acc)
  case Nil
  show ?case by simp
next
  case (Cons l word)
  show ?case
    using Cons.IH [of "increment l acc"] by (cases "l = c") (simp_all add: filter_increment)
qed

lemma countLetters_filter:
  "countLetters (filter (\<lambda>x. x \<noteq> c) word) = filter (\<lambda>e. fst e \<noteq> c) (countLetters word)"
  using foldl_increment_filter [of c "[]" word] by (simp add: countLetters_def)

lemma foldl_plus_sum_list: "foldl (+) (a::int) xs = a + sum_list xs"
  by (induction xs arbitrary: a) simp_all

lemma sum_list_drop_zero_entries:
  assumes "\<forall>e\<in>set al. fst e = c \<longrightarrow> f e = (0::int)"
  shows "sum_list (map f al) = sum_list (map f (filter (\<lambda>e. fst e \<noteq> c) al))"
  using assms by (induction al) auto

lemma baseScore_drop_letter:
  assumes "letterValue letters (c, count_list word c) = 0"
  shows "baseScore word letters = baseScore (filter (\<lambda>x. x \<noteq> c) word) letters"
proof -
  have "\<forall>e\<in>set (countLetters word). fst e = c \<longrightarrow> letterValue letters e = 0"
  proof (intro ballI impI)
    fix e assume e: "e \<in> set (countLetters word)" and c: "fst e = c"
    have "(c, snd e) \<in> set (countLetters word)"
      using e c by (metis prod.collapse)
    then have "snd e = count_list word c" by (rule countLetters_entry)
    then have "e = (c, count_list word c)" using c by (metis prod.collapse)
    then show "letterValue letters e = 0" using assms by simp
  qed
  then have "sum_list (map (letterValue letters) (countLetters word))
      = sum_list (map (letterValue letters)
          (filter (\<lambda>e. fst e \<noteq> c) (countLetters word)))"
    by (rule sum_list_drop_zero_entries)
  then show ?thesis
    by (simp add: baseScore_def foldl_plus_sum_list countLetters_filter)
qed

lemma table_aaaaa:
  "scoreLetters [''aaaaa'', ''bcdef'', ''ghijk'']
   = [(CHR ''a'', [1, 1, 1, 1]), (CHR ''b'', [1, 0, 0, 0]), (CHR ''c'', [1, 0, 0, 0]),
      (CHR ''d'', [1, 0, 0, 0]), (CHR ''e'', [1, 0, 0, 0]), (CHR ''f'', [1, 0, 0, 0]),
      (CHR ''g'', [1, 0, 0, 0]), (CHR ''h'', [1, 0, 0, 0]), (CHR ''i'', [1, 0, 0, 0]),
      (CHR ''j'', [1, 0, 0, 0]), (CHR ''k'', [1, 0, 0, 0])]"
  by (simp add: scoreLetters_def tally_def countLetters_def increment_def bumpRow_def
      bumpSlot_def upt4)

text \<open>
  C5 (as stated, refuted). The claim has a letter that occurs five times scored with the
  table entry at index 3. In the table of \<open>aaaaa, bcdef, ghijk\<close> the row of \<open>a\<close> is
  \<open>[1, 1, 1, 1]\<close>, the word \<open>aaaaa\<close> holds \<open>a\<close> five times, and its value is 0, not the entry 1
  at index 3: the lookup at index 4 finds nothing and \<open>?? 0\<close> applies.
\<close>

theorem clamped_index_counterexample:
  "map_of (scoreLetters [''aaaaa'', ''bcdef'', ''ghijk'']) CHR ''a'' = Some [1, 1, 1, 1]
   \<and> countLetters ''aaaaa'' = [(CHR ''a'', 5)]
   \<and> scoreWord ''aaaaa'' (scoreLetters [''aaaaa'', ''bcdef'', ''ghijk'']) [] = 0"
  by (simp add: table_aaaaa scoreWord_def baseScore_def letterValue_def countLetters_def
      increment_def)


text \<open>
  C5 (amended). A letter that occurs more than four times in a word, or that has no row
  in the letter table, contributes 0 to the word's value: the word scores as it does with
  every copy of that letter removed. The rows of the table that \<open>scoreLetters\<close> builds have
  four entries, and the index \<open>count - 1\<close> is not clamped.
\<close>

theorem overlong_count_scores_zero:
  assumes "4 < count_list word c \<or> map_of (scoreLetters words) c = None"
  shows "letterValue (scoreLetters words) (c, count_list word c) = 0
     \<and> baseScore word (scoreLetters words)
       = baseScore (filter (\<lambda>x. x \<noteq> c) word) (scoreLetters words)"
  using assms letterValue_out_of_table [of "count_list word c" words c]
    baseScore_drop_letter [of "scoreLetters words" c word]
  by blast

theorem overlong_count_scores_zero_witness:
  "letterValue (scoreLetters [''aaaaa'', ''bcdef'', ''ghijk''])
       (CHR ''a'', count_list ''aaaaa'' CHR ''a'') = 0
   \<and> baseScore ''aaaaa'' (scoreLetters [''aaaaa'', ''bcdef'', ''ghijk''])
     = baseScore (filter (\<lambda>x. x \<noteq> CHR ''a'') ''aaaaa'')
         (scoreLetters [''aaaaa'', ''bcdef'', ''ghijk''])"
  using overlong_count_scores_zero [of "''aaaaa''" "CHR ''a''"
      "[''aaaaa'', ''bcdef'', ''ghijk'']"]
  by simp


section \<open>Properties of the word ranker\<close>

lemma table_two_words:
  "scoreLetters [''abcde'', ''fghij'']
   = [(CHR ''a'', [1, 0, 0, 0]), (CHR ''b'', [1, 0, 0, 0]), (CHR ''c'', [1, 0, 0, 0]),
      (CHR ''d'', [1, 0, 0, 0]), (CHR ''e'', [1, 0, 0, 0]), (CHR ''f'', [1, 0, 0, 0]),
      (CHR ''g'', [1, 0, 0, 0]), (CHR ''h'', [1, 0, 0, 0]), (CHR ''i'', [1, 0, 0, 0]),
      (CHR ''j'', [1, 0, 0, 0])]"
  by (simp add: scoreLetters_def tally_def countLetters_def increment_def bumpRow_def
      bumpSlot_def upt4)

text \<open>Evaluation of the rounding on numerals.\<close>

lemma floor_rat_numeral: "\<lfloor>(numeral a :: rat) / numeral b\<rfloor> = numeral a div numeral b"
  using floor_divide_of_int_eq [of "numeral a" "numeral b", where ?'a = rat] by simp

lemma quantumUp_numeral:
  "quantumUp (numeral k) x q = (if 2 \<le> x then quantumUp (pred_numeral k) (x / 2) (2 * q) else q)"
  by (simp add: numeral_eq_Suc)

lemma quantumDown_numeral:
  "quantumDown (numeral k) x q
   = (if x < 1 then quantumDown (pred_numeral k) (2 * x) (q / 2) else q)"
  by (simp add: numeral_eq_Suc)

lemmas double_eval = double_def quantum_def quantumUp_numeral quantumDown_numeral
  roundHalfEven_def Let_def floor_rat_numeral onePointOne_def

lemma score_abfgh:
  "scoreWords ''abfgh'' (map scoreLetters [[''abcde'', ''fghij'']]) [[''abcde'', ''fghij'']] = 5"
  by (simp add: table_two_words scoreWords_def scoreWord_def baseScore_def letterValue_def
      countLetters_def increment_def double_eval)

lemma score_cdeij:
  "scoreWords ''cdeij'' (map scoreLetters [[''abcde'', ''fghij'']]) [[''abcde'', ''fghij'']] = 5"
  by (simp add: table_two_words scoreWords_def scoreWord_def baseScore_def letterValue_def
      countLetters_def increment_def double_eval)

text \<open>
  The rounding decides comparisons. On the boards \<open>crane, stale, arise, raise\<close> and
  \<open>crane, stale, arise, onset\<close> the word \<open>crane\<close> has the base scores 3 and 6 and the word
  \<open>arise\<close> the base scores 4 and 5; both are candidates of both boards. In exact arithmetic
  both total 11.9; in doubles \<open>3 * 1.1 + 1\<close> is 4.300000000000001, the total of \<open>crane\<close> is
  11.900000000000002, that of \<open>arise\<close> is 11.9, and \<open>crane\<close> is chosen although \<open>arise\<close>
  comes later in the pool.
\<close>

lemma table_crane_raise:
  "scoreLetters [''crane'', ''stale'', ''arise'', ''raise'']
   = [(CHR ''c'', [1, 0, 0, 0]), (CHR ''r'', [1, 0, 0, 0]), (CHR ''a'', [0, 0, 0, 0]),
      (CHR ''n'', [1, 0, 0, 0]), (CHR ''e'', [0, 0, 0, 0]), (CHR ''s'', [1, 0, 0, 0]),
      (CHR ''t'', [1, 0, 0, 0]), (CHR ''l'', [1, 0, 0, 0]), (CHR ''i'', [2, 0, 0, 0])]"
  by (simp add: scoreLetters_def tally_def countLetters_def increment_def bumpRow_def
      bumpSlot_def upt4)

lemma table_crane_onset:
  "scoreLetters [''crane'', ''stale'', ''arise'', ''onset'']
   = [(CHR ''c'', [1, 0, 0, 0]), (CHR ''r'', [2, 0, 0, 0]), (CHR ''a'', [1, 0, 0, 0]),
      (CHR ''n'', [2, 0, 0, 0]), (CHR ''e'', [0, 0, 0, 0]), (CHR ''s'', [1, 0, 0, 0]),
      (CHR ''t'', [2, 0, 0, 0]), (CHR ''l'', [1, 0, 0, 0]), (CHR ''i'', [1, 0, 0, 0]),
      (CHR ''o'', [1, 0, 0, 0])]"
  by (simp add: scoreLetters_def tally_def countLetters_def increment_def bumpRow_def
      bumpSlot_def upt4)

lemma score_crane:
  "scoreWords ''crane''
     (map scoreLetters [[''crane'', ''stale'', ''arise'', ''raise''],
                        [''crane'', ''stale'', ''arise'', ''onset'']])
     [[''crane'', ''stale'', ''arise'', ''raise''], [''crane'', ''stale'', ''arise'', ''onset'']]
   = 3349552222856807 / 281474976710656"
  by (simp add: table_crane_raise table_crane_onset scoreWords_def scoreWord_def baseScore_def
      letterValue_def countLetters_def increment_def double_eval)

lemma score_arise:
  "scoreWords ''arise''
     (map scoreLetters [[''crane'', ''stale'', ''arise'', ''raise''],
                        [''crane'', ''stale'', ''arise'', ''onset'']])
     [[''crane'', ''stale'', ''arise'', ''raise''], [''crane'', ''stale'', ''arise'', ''onset'']]
   = 6699104445713613 / 562949953421312"
  by (simp add: table_crane_raise table_crane_onset scoreWords_def scoreWord_def baseScore_def
      letterValue_def countLetters_def increment_def double_eval)

lemma chooseWord_rounding:
  "chooseWord [[''crane'', ''stale'', ''arise'', ''raise''],
               [''crane'', ''stale'', ''arise'', ''onset'']] [''crane'', ''arise'']
   = Inr ''crane''"
  using score_crane score_arise
  by (simp add: chooseWord_def reduce1_def better_def)

lemma foldl_better_last_max:
  "\<exists>ys zs. x # xs = ys @ foldl (better score) x xs # zs
      \<and> (\<forall>v\<in>set ys. score v \<le> score (foldl (better score) x xs))
      \<and> (\<forall>v\<in>set zs. score v < score (foldl (better score) x xs))"
proof (induction xs rule: rev_induct)
  case Nil
  have "[x] = [] @ foldl (better score) x [] # []" by simp
  then show ?case by fastforce
next
  case (snoc y xs)
  let ?b = "foldl (better score) x xs"
  from snoc obtain ys zs where split: "x # xs = ys @ ?b # zs"
    and le: "\<forall>v\<in>set ys. score v \<le> score ?b"
    and less: "\<forall>v\<in>set zs. score v < score ?b"
    by blast
  show ?case
  proof (cases "score ?b > score y")
    case True
    then have b: "foldl (better score) x (xs @ [y]) = ?b"
      by (simp add: better_def)
    have "x # xs @ [y] = ys @ ?b # (zs @ [y])"
      using split by simp
    moreover have "\<forall>v\<in>set (zs @ [y]). score v < score ?b"
      using less True by simp
    ultimately show ?thesis
      unfolding b using le by blast
  next
    case False
    then have b: "foldl (better score) x (xs @ [y]) = y"
      by (simp add: better_def)
    have "\<forall>v\<in>set (x # xs). score v \<le> score y"
    proof
      fix v assume "v \<in> set (x # xs)"
      then have "v \<in> set (ys @ ?b # zs)"
        using split by simp
      then have "score v \<le> score ?b"
        using le less by auto
      then show "score v \<le> score y" using False by simp
    qed
    moreover have "x # xs @ [y] = (x # xs) @ y # []" by simp
    moreover have "\<forall>v\<in>set []. score v < score y" by simp
    ultimately show ?thesis
      unfolding b by blast
  qed
qed

text \<open>
  C1 (as stated, refuted). The claim lets the earliest of several best words win. On the
  candidate list \<open>abcde, fghij\<close> and the guess pool \<open>abfgh, cdeij\<close> both words of the pool
  score 5, and the ranker returns the later one.
\<close>

theorem chooseWord_tie_counterexample:
  "chooseWord [[''abcde'', ''fghij'']] [''abfgh'', ''cdeij''] = Inr ''cdeij''
   \<and> scoreWords ''abfgh'' (map scoreLetters [[''abcde'', ''fghij'']]) [[''abcde'', ''fghij'']] = 5
   \<and> scoreWords ''cdeij'' (map scoreLetters [[''abcde'', ''fghij'']]) [[''abcde'', ''fghij'']] = 5"
  using score_abfgh score_cdeij
  by (simp add: chooseWord_def reduce1_def better_def)

text \<open>
  C1 (amended). On a non-empty guess pool the ranker returns a word of the pool; the
  reduction replaces the current best word by the next word unless the current best scores
  strictly higher, so every word before the returned occurrence scores at most as high and
  every word behind it scores strictly lower: of several words with the maximal score the
  one occurring latest in the guess pool is returned. The proof uses nothing of the scores
  but their comparison (\<open>foldl_better_last_max\<close> holds for every scoring function into a
  linear order).
\<close>

theorem chooseWord_latest_best:
  assumes "pool \<noteq> []"
  shows "\<exists>word ys zs. chooseWord threadWords pool = Inr word
           \<and> pool = ys @ word # zs
           \<and> (\<forall>v\<in>set ys. scoreWords v (map scoreLetters threadWords) threadWords
                  \<le> scoreWords word (map scoreLetters threadWords) threadWords)
           \<and> (\<forall>v\<in>set zs. scoreWords v (map scoreLetters threadWords) threadWords
                  < scoreWords word (map scoreLetters threadWords) threadWords)"
proof -
  obtain x xs where p: "pool = x # xs"
    using assms by (cases pool) auto
  let ?score = "\<lambda>word. scoreWords word (map scoreLetters threadWords) threadWords"
  let ?w = "foldl (better ?score) x xs"
  have c: "chooseWord threadWords pool = Inr ?w"
    by (simp add: chooseWord_def reduce1_def p)
  obtain ys zs where "x # xs = ys @ ?w # zs"
    and "\<forall>v\<in>set ys. ?score v \<le> ?score ?w"
    and "\<forall>v\<in>set zs. ?score v < ?score ?w"
    using foldl_better_last_max [of x xs ?score] by blast
  then have "chooseWord threadWords pool = Inr ?w \<and> pool = ys @ ?w # zs
      \<and> (\<forall>v\<in>set ys. ?score v \<le> ?score ?w) \<and> (\<forall>v\<in>set zs. ?score v < ?score ?w)"
    using c p by simp
  then show ?thesis by blast
qed

theorem chooseWord_latest_best_witness:
  "\<exists>word ys zs. chooseWord [[''abcde'', ''fghij'']] [''abfgh'', ''cdeij''] = Inr word
           \<and> [''abfgh'', ''cdeij''] = ys @ word # zs
           \<and> (\<forall>v\<in>set ys. scoreWords v (map scoreLetters [[''abcde'', ''fghij'']]) [[''abcde'', ''fghij'']]
                  \<le> scoreWords word (map scoreLetters [[''abcde'', ''fghij'']]) [[''abcde'', ''fghij'']])
           \<and> (\<forall>v\<in>set zs. scoreWords v (map scoreLetters [[''abcde'', ''fghij'']]) [[''abcde'', ''fghij'']]
                  < scoreWords word (map scoreLetters [[''abcde'', ''fghij'']]) [[''abcde'', ''fghij'']])"
  using chooseWord_latest_best [of "[''abfgh'', ''cdeij'']" "[[''abcde'', ''fghij'']]"]
  by simp


section \<open>Properties of the feedback evaluator\<close>

lemma upt5: "[0..<5] = [0, 1, 2, 3, 4]"
  by (simp add: upt_rec)

lemma classify_length: "length (classify guess solution occ is) = length is"
  by (induction "is" arbitrary: occ)
     (auto simp: Let_def split: option.splits nat.splits)

lemma classify_perfect:
  assumes "charAt guess i = charAt solution i"
  shows "classify guess solution occ (i # rest) = PERFECT # classify guess solution occ rest"
  using assms by (simp add: Let_def)

lemma classify_close:
  assumes "charAt guess i \<noteq> charAt solution i" and "occ (charAt guess i) = Some (Suc n)"
  shows "classify guess solution occ (i # rest)
         = CLOSE # classify guess solution (occ(charAt guess i \<mapsto> n)) rest"
  using assms by (simp add: Let_def)

lemma classify_wrong:
  assumes "charAt guess i \<noteq> charAt solution i"
    and "(case occ (charAt guess i) of None \<Rightarrow> 0 | Some n \<Rightarrow> n) = 0"
  shows "classify guess solution occ (i # rest) = WRONG # classify guess solution occ rest"
  using assms by (auto simp: Let_def split: option.splits nat.splits)

lemma classify_cases:
  obtains (perfect) "charAt guess i = charAt solution i"
  | (close) n where "charAt guess i \<noteq> charAt solution i"
      "occ (charAt guess i) = Some (Suc n)"
  | (wrong) "charAt guess i \<noteq> charAt solution i"
      "(case occ (charAt guess i) of None \<Rightarrow> 0 | Some n \<Rightarrow> n) = 0"
proof (cases "charAt guess i = charAt solution i")
  case True
  then show ?thesis by (rule perfect)
next
  case False
  show ?thesis
  proof (cases "occ (charAt guess i)")
    case None
    then show ?thesis using False wrong by simp
  next
    case (Some m)
    then show ?thesis using False wrong close by (cases m) simp_all
  qed
qed

lemma classify_credit:
  "length (filter (\<lambda>(i, r). charAt guess i = L \<and> r \<noteq> WRONG)
             (zip is (classify guess solution occ is)))
   \<le> (case occ L of None \<Rightarrow> 0 | Some n \<Rightarrow> n)
     + length (filter (\<lambda>i. charAt guess i = L \<and> charAt solution i = L) is)"
proof (induction "is" arbitrary: occ)
  case Nil
  show ?case by simp
next
  case (Cons i rest)
  show ?case
  proof (cases rule: classify_cases [where guess = guess and i = i and solution = solution and occ = occ])
    case perfect
    show ?thesis
      unfolding classify_perfect [OF perfect]
      using Cons.IH [of occ] perfect by auto
  next
    case (close n)
    define occ' where "occ' = occ(charAt guess i \<mapsto> n)"
    have ih: "length (filter (\<lambda>(i, r). charAt guess i = L \<and> r \<noteq> WRONG)
             (zip rest (classify guess solution occ' rest)))
       \<le> (case occ' L of None \<Rightarrow> 0 | Some n \<Rightarrow> n)
         + length (filter (\<lambda>i. charAt guess i = L \<and> charAt solution i = L) rest)"
      by (rule Cons.IH)
    have c: "(case occ' L of None \<Rightarrow> 0 | Some n \<Rightarrow> n)
        = (if charAt guess i = L then n else (case occ L of None \<Rightarrow> 0 | Some n \<Rightarrow> n))"
      by (simp add: occ'_def)
    have o: "charAt guess i = L \<Longrightarrow> (case occ L of None \<Rightarrow> 0 | Some n \<Rightarrow> n) = Suc n"
      using close(2) by auto
    show ?thesis
      unfolding classify_close [where occ = occ and guess = guess and i = i and solution = solution
          and n = n, OF close] occ'_def [symmetric]
      using ih c o close(1) by (cases "charAt guess i = L") auto
  next
    case wrong
    show ?thesis
      unfolding classify_wrong [where occ = occ and guess = guess and i = i and solution = solution,
          OF wrong]
      using Cons.IH [of occ] wrong by auto
  qed
qed

lemma classify_no_credit:
  assumes "(case occ L of None \<Rightarrow> 0 | Some n \<Rightarrow> n) = 0"
    and "j < length is" and "charAt guess (is ! j) = L"
  shows "classify guess solution occ is ! j \<noteq> CLOSE"
  using assms
proof (induction "is" arbitrary: occ j)
  case Nil
  then show ?case by simp
next
  case (Cons i rest)
  show ?case
  proof (cases rule: classify_cases [where guess = guess and i = i and solution = solution and occ = occ])
    case perfect
    show ?thesis
      unfolding classify_perfect [OF perfect]
      using Cons.IH [of occ] Cons.prems by (cases j) auto
  next
    case (close n)
    define occ' where "occ' = occ(charAt guess i \<mapsto> n)"
    have other: "charAt guess i \<noteq> L"
      using close(2) Cons.prems(1) by auto
    then have z: "(case occ' L of None \<Rightarrow> 0 | Some n \<Rightarrow> n) = 0"
      using Cons.prems(1) by (simp add: occ'_def)
    have "j \<noteq> 0"
    proof
      assume "j = 0"
      then have "charAt guess i = L" using Cons.prems(3) by simp
      then show False using other by simp
    qed
    then obtain j' where j: "j = Suc j'" by (cases j) auto
    have "classify guess solution occ' rest ! j' \<noteq> CLOSE"
      using Cons.IH [of occ' j'] z Cons.prems j by simp
    then show ?thesis
      unfolding classify_close [where occ = occ and guess = guess and i = i and solution = solution
          and n = n, OF close] occ'_def [symmetric] j by simp
  next
    case wrong
    show ?thesis
      unfolding classify_wrong [where occ = occ and guess = guess and i = i and solution = solution,
          OF wrong]
      using Cons.IH [of occ] Cons.prems by (cases j) auto
  qed
qed

lemma classify_leftmost:
  assumes "a < b" and "b < length is"
    and "classify guess solution occ is ! a = WRONG"
    and "charAt guess (is ! a) = charAt guess (is ! b)"
  shows "classify guess solution occ is ! b \<noteq> CLOSE"
  using assms
proof (induction "is" arbitrary: occ a b)
  case Nil
  then show ?case by simp
next
  case (Cons i rest)
  obtain b' where b: "b = Suc b'" using Cons.prems(1) by (cases b) auto
  have later: "classify guess solution occ' rest ! b' \<noteq> CLOSE"
    if "a \<noteq> 0" and "classify guess solution occ' rest ! (a - 1) = WRONG" for occ'
    using Cons.IH [of "a - 1" b' occ'] Cons.prems b that by (cases a) auto
  show ?case
  proof (cases rule: classify_cases [where guess = guess and i = i and solution = solution
        and occ = occ])
    case perfect
    note eq = classify_perfect [OF perfect, of occ rest]
    have "a \<noteq> 0" using Cons.prems(3) eq by (cases a) auto
    then show ?thesis
      using later [of occ] Cons.prems(3) eq b by (cases a) auto
  next
    case (close n)
    note eq = classify_close [where occ = occ and guess = guess and i = i
        and solution = solution and n = n, OF close, of rest]
    have "a \<noteq> 0" using Cons.prems(3) eq by (cases a) auto
    then show ?thesis
      using later [of "occ(charAt guess i \<mapsto> n)"] Cons.prems(3) eq b by (cases a) auto
  next
    case wrong
    note eq = classify_wrong [where occ = occ and guess = guess and i = i
        and solution = solution, OF wrong, of rest]
    show ?thesis
    proof (cases a)
      case 0
      have "classify guess solution occ rest ! b' \<noteq> CLOSE"
        using classify_no_credit [where occ = occ and L = "charAt guess i" and j = b'
            and ?is = rest and guess = guess and solution = solution]
          wrong(2) Cons.prems(2,4) b 0
        by simp
      then show ?thesis using eq b by simp
    next
      case (Suc a')
      then show ?thesis
        using later [of occ] Cons.prems(3) eq b by auto
    qed
  qed
qed

lemma countUnmatched_total:
  "(case foldl (countUnmatched guess solution) occ is L of None \<Rightarrow> 0 | Some n \<Rightarrow> n)
   = (case occ L of None \<Rightarrow> 0 | Some n \<Rightarrow> n)
     + length (filter (\<lambda>i. charAt solution i = L \<and> charAt guess i \<noteq> L) is)"
proof (induction "is" arbitrary: occ)
  case Nil
  show ?case by simp
next
  case (Cons i rest)
  define occ' where "occ' = countUnmatched guess solution occ i"
  have step: "(case occ' L of None \<Rightarrow> 0 | Some n \<Rightarrow> n)
      = (case occ L of None \<Rightarrow> 0 | Some n \<Rightarrow> n)
        + (if charAt solution i = L \<and> charAt guess i \<noteq> L then 1 else 0)"
    by (auto simp: occ'_def countUnmatched_def Let_def)
  have "(case foldl (countUnmatched guess solution) occ' rest L of None \<Rightarrow> 0 | Some n \<Rightarrow> n)
      = (case occ' L of None \<Rightarrow> 0 | Some n \<Rightarrow> n)
        + length (filter (\<lambda>i. charAt solution i = L \<and> charAt guess i \<noteq> L) rest)"
    by (rule Cons.IH)
  then show ?case
    using step by (simp add: occ'_def [symmetric])
qed

lemma filter_split_length:
  "length (filter (\<lambda>i. S i \<and> \<not> G i) xs) + length (filter (\<lambda>i. G i \<and> S i) xs)
   = length (filter S xs)"
  by (induction xs) auto

lemma count_list_positions:
  "length (filter (\<lambda>i. charAt xs i = Some c) [0..<length xs]) = count_list xs c"
proof (induction xs rule: rev_induct)
  case Nil
  show ?case by simp
next
  case (snoc x xs)
  have "filter (\<lambda>i. charAt (xs @ [x]) i = Some c) [0..<length xs]
      = filter (\<lambda>i. charAt xs i = Some c) [0..<length xs]"
    by (rule filter_cong) (simp_all add: charAt_def nth_append)
  then show ?case
    using snoc by (simp add: charAt_def)
qed

lemma zip_upt_nth:
  assumes "length xs = n"
  shows "zip [0..<n] xs = map (\<lambda>i. (i, xs ! i)) [0..<n]"
  using assms by (auto intro!: nth_equalityI)

lemma filter_zip_upt:
  assumes "length xs = n"
  shows "length (filter (\<lambda>(i, r). P i r) (zip [0..<n] xs))
         = length (filter (\<lambda>i. P i (xs ! i)) [0..<n])"
  by (simp add: zip_upt_nth [OF assms] filter_map comp_def)

text \<open>
  C2. For a guess and a solution of five characters the evaluator returns five results.
  For every letter, the positions of the guess that hold the letter and are not classified
  \<open>WRONG\<close> (they are \<open>PERFECT\<close> or \<open>CLOSE\<close>) are at most as many as the occurrences of the
  letter in the solution. Of two positions with the same letter, if the right one is
  \<open>CLOSE\<close> and the left one is not \<open>PERFECT\<close>, the left one is \<open>CLOSE\<close> too: the credit goes
  to the leftmost positions first.
\<close>

theorem makeGuess_credit:
  assumes "length guess = 5" and "length solution = 5"
  shows "length (makeGuess guess solution) = 5
     \<and> length (filter (\<lambda>i. guess ! i = c \<and> makeGuess guess solution ! i \<noteq> WRONG) [0..<5])
       \<le> count_list solution c
     \<and> (\<forall>i j. i < j \<longrightarrow> j < 5 \<longrightarrow> guess ! i = guess ! j
           \<longrightarrow> makeGuess guess solution ! i \<noteq> PERFECT
           \<longrightarrow> makeGuess guess solution ! j = CLOSE
           \<longrightarrow> makeGuess guess solution ! i = CLOSE)"
proof -
  let ?occ = "foldl (countUnmatched guess solution) Map.empty [0..<5]"
  let ?res = "makeGuess guess solution"
  let ?L = "Some c"
  have res: "?res = classify guess solution ?occ [0..<5]"
    by (simp add: makeGuess_def)
  have len: "length ?res = 5"
    by (simp add: res classify_length)
  have at: "charAt guess i = Some (guess ! i)" if "i < 5" for i
    using that assms(1) by (simp add: charAt_def)
  have "length (filter (\<lambda>i. guess ! i = c \<and> ?res ! i \<noteq> WRONG) [0..<5])
      = length (filter (\<lambda>i. charAt guess i = ?L \<and> ?res ! i \<noteq> WRONG) [0..<5])"
    by (rule arg_cong [where f = length], rule filter_cong) (simp_all add: at)
  also have "\<dots> = length (filter (\<lambda>(i, r). charAt guess i = ?L \<and> r \<noteq> WRONG)
                        (zip [0..<5] ?res))"
    using filter_zip_upt [OF len, of "\<lambda>i r. charAt guess i = ?L \<and> r \<noteq> WRONG"] by simp
  also have "\<dots> \<le> (case ?occ ?L of None \<Rightarrow> 0 | Some n \<Rightarrow> n)
      + length (filter (\<lambda>i. charAt guess i = ?L \<and> charAt solution i = ?L) [0..<5])"
    unfolding res by (rule classify_credit)
  also have "\<dots> = length (filter (\<lambda>i. charAt solution i = ?L \<and> charAt guess i \<noteq> ?L) [0..<5])
      + length (filter (\<lambda>i. charAt guess i = ?L \<and> charAt solution i = ?L) [0..<5])"
    by (simp add: countUnmatched_total)
  also have "\<dots> = length (filter (\<lambda>i. charAt solution i = ?L) [0..<5])"
    by (rule filter_split_length)
  also have "\<dots> = count_list solution c"
    using count_list_positions [of solution c] assms(2) by simp
  finally have credit:
    "length (filter (\<lambda>i. guess ! i = c \<and> ?res ! i \<noteq> WRONG) [0..<5]) \<le> count_list solution c" .
  have left: "?res ! i = CLOSE"
    if "i < j" and "j < 5" and "guess ! i = guess ! j" and "?res ! i \<noteq> PERFECT"
      and "?res ! j = CLOSE" for i j
  proof (rule ccontr)
    assume "?res ! i \<noteq> CLOSE"
    then have w: "classify guess solution ?occ [0..<5] ! i = WRONG"
      using that(4) res by (cases "?res ! i") simp_all
    have "charAt guess ([0..<5] ! i) = charAt guess ([0..<5] ! j)"
      using that(1-3) at by simp
    from classify_leftmost [OF that(1) _ w this] that(2,5) res show False by simp
  qed
  show ?thesis
    using len credit left by blast
qed

lemma makeGuess_eerie_speed:
  "makeGuess ''eerie'' ''speed'' = [CLOSE, CLOSE, WRONG, WRONG, WRONG]"
  by (simp add: makeGuess_def upt5 countUnmatched_def charAt_def)

theorem makeGuess_credit_witness:
  "length (makeGuess ''eerie'' ''speed'') = 5
   \<and> length (filter (\<lambda>i. ''eerie'' ! i = CHR ''e'' \<and> makeGuess ''eerie'' ''speed'' ! i \<noteq> WRONG)
        [0..<5]) \<le> count_list ''speed'' CHR ''e''
   \<and> makeGuess ''eerie'' ''speed'' ! 1 = CLOSE
   \<and> makeGuess ''eerie'' ''speed'' ! 0 = CLOSE"
  using makeGuess_credit [of "''eerie''" "''speed''" "CHR ''e''"]
  by (simp add: makeGuess_eerie_speed)

section \<open>Properties of the constraint tracker\<close>

lemma solved_nothingKnown: "solved nothingKnown = False"
  by (simp add: nothingKnown_def)

lemma makeGuess_crane_slate:
  "makeGuess ''crane'' ''slate'' = [WRONG, WRONG, PERFECT, WRONG, PERFECT]"
  by (simp add: makeGuess_def upt5 countUnmatched_def charAt_def)

lemma updateKnown_crane_slate:
  "updateKnown ''crane'' [WRONG, WRONG, PERFECT, WRONG, PERFECT] nothingKnown
   = \<lparr>fixed = ''..a.e'', good = [(Some CHR ''a'', 1), (Some CHR ''e'', 1)],
      bad = [(Some CHR ''c'', 1), (Some CHR ''r'', 1), (Some CHR ''n'', 1)],
      badPositions = [],
      guessResult = redSquare @ redSquare @ greenSquare @ redSquare @ greenSquare
        @ '' crane'' @ [CHR 0x0A],
      solved = False\<rparr>"
  by (simp add: updateKnown_def scanResponse_def nothingKnown_def upt5 charAt_def toStr_def
      increment_def setAdd_def newSet_def)

lemma scanResponse_snoc:
  "scanResponse guess (rs @ [r]) old
   = scanStep guess (fixed old) (scanResponse guess rs old) (length rs, r)"
  by (simp add: scanResponse_def)

lemma scanResponse_fixed:
  assumes "length response \<le> length guess" and "length response \<le> length (fixed old)"
  shows "fst (scanResponse guess response old)
     = map (\<lambda>i. if response ! i = PERFECT then guess ! i else fixed old ! i)
         [0..<length response]"
  using assms
proof (induction response rule: rev_induct)
  case Nil
  show ?case by (simp add: scanResponse_def)
next
  case (snoc r rs)
  obtain kf ng nb bp gr where st: "scanResponse guess rs old = (kf, ng, nb, bp, gr)"
    by (cases "scanResponse guess rs old") auto
  have kf: "kf = map (\<lambda>i. if rs ! i = PERFECT then guess ! i else fixed old ! i)
         [0..<length rs]"
    using snoc st by simp
  have in_range: "length rs < length guess" "length rs < length (fixed old)"
    using snoc.prems by simp_all
  have same: "map (\<lambda>i. if (rs @ [r]) ! i = PERFECT then guess ! i else fixed old ! i)
         [0..<length rs] = kf"
    unfolding kf by (rule map_cong) (simp_all add: nth_append)
  show ?case
    using in_range same
    by (cases r) (simp_all add: scanResponse_snoc st charAt_def toStr_def Let_def)
qed

lemma fixed_updateKnown:
  "fixed (updateKnown guess response old) = fst (scanResponse guess response old)"
  by (simp add: updateKnown_def Let_def split: prod.splits)

lemma set_newSet: "set (newSet xs) = set xs"
proof -
  have "set (foldl (\<lambda>s x. setAdd x s) acc xs) = set acc \<union> set xs" for acc
    by (induction xs arbitrary: acc) (auto simp: setAdd_def)
  then show ?thesis by (simp add: newSet_def)
qed

lemma map_of_tabulate:
  "map_of (map (\<lambda>k. (k, f k)) ks) l = (if l \<in> set ks then Some (f l) else None)"
  by (induction ks) auto

lemma good_updateKnown:
  "\<exists>newGood. \<forall>l. map_of (good (updateKnown guess response old)) l
     = (if l \<in> fst ` set (good old) \<union> fst ` set newGood
        then Some (max (case map_of (good old) l of None \<Rightarrow> 0 | Some n \<Rightarrow> n)
                       (case map_of newGood l of None \<Rightarrow> 0 | Some n \<Rightarrow> n))
        else None)"
proof -
  obtain kf ng nb bp gr where st: "scanResponse guess response old = (kf, ng, nb, bp, gr)"
    by (cases "scanResponse guess response old") auto
  have "\<forall>l. map_of (good (updateKnown guess response old)) l
     = (if l \<in> fst ` set (good old) \<union> fst ` set ng
        then Some (max (case map_of (good old) l of None \<Rightarrow> 0 | Some n \<Rightarrow> n)
                       (case map_of ng l of None \<Rightarrow> 0 | Some n \<Rightarrow> n))
        else None)"
    by (simp add: updateKnown_def st Let_def map_of_tabulate set_newSet)
  then show ?thesis by blast
qed

lemma map_of_foldl_update:
  "map_of (foldl (\<lambda>obj l. AList.update l (h l) obj) acc ls) l
   = (if l \<in> set ls then Some (h l) else map_of acc l)"
  by (induction ls arbitrary: acc) (auto simp: update_conv')

lemma bad_updateKnown:
  "\<exists>newBad. \<forall>l. map_of (bad (updateKnown guess response old)) l
     = (if l \<in> set newBad
        then Some ((case map_of (good (updateKnown guess response old)) l of
                      None \<Rightarrow> 0 | Some n \<Rightarrow> n) + 1)
        else map_of (bad old) l)"
proof -
  obtain kf ng nb bp gr where st: "scanResponse guess response old = (kf, ng, nb, bp, gr)"
    by (cases "scanResponse guess response old") auto
  have "\<forall>l. map_of (bad (updateKnown guess response old)) l
     = (if l \<in> set nb
        then Some ((case map_of (good (updateKnown guess response old)) l of
                      None \<Rightarrow> 0 | Some n \<Rightarrow> n) + 1)
        else map_of (bad old) l)"
    by (simp add: updateKnown_def st Let_def map_of_foldl_update)
  then show ?thesis by blast
qed

lemma good_mono:
  assumes "map_of (good old) l = Some n"
  shows "\<exists>m. map_of (good (updateKnown guess response old)) l = Some m \<and> n \<le> m"
proof -
  obtain newGood where g: "\<forall>l. map_of (good (updateKnown guess response old)) l
     = (if l \<in> fst ` set (good old) \<union> fst ` set newGood
        then Some (max (case map_of (good old) l of None \<Rightarrow> 0 | Some n \<Rightarrow> n)
                       (case map_of newGood l of None \<Rightarrow> 0 | Some n \<Rightarrow> n))
        else None)"
    using good_updateKnown by blast
  have "(l, n) \<in> set (good old)"
    using assms by (rule map_of_SomeD)
  then have "l \<in> fst ` set (good old)" by force
  then show ?thesis
    using g assms by simp
qed

lemma goodCount_mono:
  "(case map_of (good old) l of None \<Rightarrow> 0 | Some n \<Rightarrow> n)
   \<le> (case map_of (good (updateKnown guess response old)) l of None \<Rightarrow> 0 | Some n \<Rightarrow> n)"
proof (cases "map_of (good old) l")
  case None
  then show ?thesis by simp
next
  case (Some n)
  then show ?thesis
    using good_mono [OF Some, of guess response] by auto
qed

lemma bad_mono:
  assumes "\<forall>l b. map_of (bad old) l = Some b
             \<longrightarrow> b \<le> (case map_of (good old) l of None \<Rightarrow> 0 | Some n \<Rightarrow> n) + 1"
    and "map_of (bad old) l = Some b"
  shows "\<exists>c. map_of (bad (updateKnown guess response old)) l = Some c \<and> b \<le> c
           \<and> c \<le> (case map_of (good (updateKnown guess response old)) l of
                      None \<Rightarrow> 0 | Some n \<Rightarrow> n) + 1"
proof -
  obtain newBad where n: "\<forall>l. map_of (bad (updateKnown guess response old)) l
     = (if l \<in> set newBad
        then Some ((case map_of (good (updateKnown guess response old)) l of
                      None \<Rightarrow> 0 | Some n \<Rightarrow> n) + 1)
        else map_of (bad old) l)"
    using bad_updateKnown by blast
  have "b \<le> (case map_of (good old) l of None \<Rightarrow> 0 | Some n \<Rightarrow> n) + 1"
    using assms by blast
  then have "b \<le> (case map_of (good (updateKnown guess response old)) l of
                      None \<Rightarrow> 0 | Some n \<Rightarrow> n) + 1"
    using goodCount_mono [of old l guess response] by linarith
  then show ?thesis
    using n assms(2) by simp
qed

lemma bad_bounded_step:
  assumes "\<forall>l b. map_of (bad old) l = Some b
             \<longrightarrow> b \<le> (case map_of (good old) l of None \<Rightarrow> 0 | Some n \<Rightarrow> n) + 1"
    and "map_of (bad (updateKnown guess response old)) l = Some c"
  shows "c \<le> (case map_of (good (updateKnown guess response old)) l of
                 None \<Rightarrow> 0 | Some n \<Rightarrow> n) + 1"
proof -
  obtain newBad where n: "\<forall>l. map_of (bad (updateKnown guess response old)) l
     = (if l \<in> set newBad
        then Some ((case map_of (good (updateKnown guess response old)) l of
                      None \<Rightarrow> 0 | Some n \<Rightarrow> n) + 1)
        else map_of (bad old) l)"
    using bad_updateKnown by blast
  show ?thesis
  proof (cases "l \<in> set newBad")
    case True
    then show ?thesis using n assms(2) by simp
  next
    case False
    then have "map_of (bad old) l = Some c" using n assms(2) by simp
    from bad_mono [OF assms(1) this, of guess response] show ?thesis
      using assms(2) by auto
  qed
qed

lemma fixed_length_step:
  assumes "length (fixed old) = 5" and "length guess = 5" and "length response = 5"
  shows "length (fixed (updateKnown guess response old)) = 5"
  using assms by (simp add: fixed_updateKnown scanResponse_fixed)

lemma tracked_invariant:
  assumes "tracked k"
  shows "length (fixed k) = 5
     \<and> (\<forall>l b. map_of (bad k) l = Some b
           \<longrightarrow> b \<le> (case map_of (good k) l of None \<Rightarrow> 0 | Some n \<Rightarrow> n) + 1)"
  using assms
proof (induction rule: tracked.induct)
  case tracked_start
  show ?case by (simp add: nothingKnown_def)
next
  case (tracked_update old guess response)
  then show ?case
    using fixed_length_step [of old guess response]
      bad_bounded_step [of old guess response]
    by blast
qed

text \<open>
  C4. Let the previous state be a constraint state of a board, the guess five characters
  none of which is the wildcard, and the response five results. In the state the tracker
  returns, the fixed pattern has five characters and every position that held a letter
  still holds a letter; every letter with a good count has a good count at least as large;
  every letter with a bad bound has a bad bound at least as large.
\<close>

theorem updateKnown_monotone:
  assumes "tracked old" and "length guess = 5" and "length response = 5"
    and "CHR ''.'' \<notin> set guess"
  shows "length (fixed (updateKnown guess response old)) = 5
     \<and> (\<forall>i<5. fixed old ! i \<noteq> CHR ''.''
           \<longrightarrow> fixed (updateKnown guess response old) ! i \<noteq> CHR ''.'')
     \<and> (\<forall>l n. map_of (good old) l = Some n
           \<longrightarrow> (\<exists>m. map_of (good (updateKnown guess response old)) l = Some m \<and> n \<le> m))
     \<and> (\<forall>l b. map_of (bad old) l = Some b
           \<longrightarrow> (\<exists>c. map_of (bad (updateKnown guess response old)) l = Some c \<and> b \<le> c))"
proof -
  note inv = tracked_invariant [OF assms(1)]
  have len: "length (fixed old) = 5" using inv by simp
  have f: "fixed (updateKnown guess response old)
      = map (\<lambda>i. if response ! i = PERFECT then guess ! i else fixed old ! i) [0..<5]"
    using len assms(2,3) scanResponse_fixed [of response guess old]
    by (simp add: fixed_updateKnown)
  have a: "length (fixed (updateKnown guess response old)) = 5"
    unfolding f by simp
  have b: "fixed (updateKnown guess response old) ! i \<noteq> CHR ''.''"
    if "i < 5" and "fixed old ! i \<noteq> CHR ''.''" for i
  proof -
    have "guess ! i \<in> set guess" using that(1) assms(2) by simp
    then have "guess ! i \<noteq> CHR ''.''" using assms(4) by metis
    then show ?thesis unfolding f using that by simp
  qed
  have c: "\<exists>m. map_of (good (updateKnown guess response old)) l = Some m \<and> n \<le> m"
    if "map_of (good old) l = Some n" for l n
    using that by (rule good_mono)
  have d: "\<exists>c. map_of (bad (updateKnown guess response old)) l = Some c \<and> b \<le> c"
    if "map_of (bad old) l = Some b" for l b
    using bad_mono [of old l b guess response] inv that by blast
  show ?thesis using a b c d by blast
qed

theorem updateKnown_monotone_witness:
  "length (fixed (updateKnown ''slate'' [PERFECT, PERFECT, PERFECT, PERFECT, PERFECT]
      (updateKnown ''crane'' [WRONG, WRONG, PERFECT, WRONG, PERFECT] nothingKnown))) = 5
   \<and> fixed (updateKnown ''slate'' [PERFECT, PERFECT, PERFECT, PERFECT, PERFECT]
      (updateKnown ''crane'' [WRONG, WRONG, PERFECT, WRONG, PERFECT] nothingKnown)) ! 2
     \<noteq> CHR ''.''
   \<and> (\<exists>m. map_of (good (updateKnown ''slate'' [PERFECT, PERFECT, PERFECT, PERFECT, PERFECT]
      (updateKnown ''crane'' [WRONG, WRONG, PERFECT, WRONG, PERFECT] nothingKnown)))
         (Some CHR ''a'') = Some m \<and> 1 \<le> m)
   \<and> (\<exists>c. map_of (bad (updateKnown ''slate'' [PERFECT, PERFECT, PERFECT, PERFECT, PERFECT]
      (updateKnown ''crane'' [WRONG, WRONG, PERFECT, WRONG, PERFECT] nothingKnown)))
         (Some CHR ''c'') = Some c \<and> 1 \<le> c)"
proof -
  let ?old = "updateKnown ''crane'' [WRONG, WRONG, PERFECT, WRONG, PERFECT] nothingKnown"
  have t: "tracked ?old"
    by (rule tracked_update [OF tracked_start]) simp_all
  have o: "fixed ?old ! 2 \<noteq> CHR ''.''" "map_of (good ?old) (Some CHR ''a'') = Some 1"
    "map_of (bad ?old) (Some CHR ''c'') = Some 1"
    by (simp_all add: updateKnown_crane_slate)
  have "(2::nat) < 5" by simp
  then show ?thesis
    using o updateKnown_monotone [OF t, of "''slate''"
        "[PERFECT, PERFECT, PERFECT, PERFECT, PERFECT]"]
    by (simp del: One_nat_def)
qed


section \<open>Properties of the board coordinator\<close>

lemma find_unknownSolution:
  assumes "s \<in> set args" and "s \<notin> set dictionary" and "s \<noteq> []"
  shows "\<exists>u. find (unknownSolution dictionary) (map Some args) = Some (Some u)
             \<and> u \<in> set args \<and> u \<notin> set dictionary"
proof -
  have "unknownSolution dictionary (Some s)"
    using assms by (simp add: unknownSolution_def)
  then have "find (unknownSolution dictionary) (map Some args) \<noteq> None"
    using assms(1) by (auto simp: find_None_iff)
  then obtain v where v: "find (unknownSolution dictionary) (map Some args) = Some v"
    by blast
  then have "v \<in> set (map Some args)" and "unknownSolution dictionary v"
    by (auto simp: find_Some_iff)
  then show ?thesis
    using v by (auto simp: unknownSolution_def)
qed

text \<open>
  C8. When solutions are supplied and one of them, a word (not the empty string, which the
  check \<open>solution && ...\<close> passes over), is not in the dictionary, the process ends before
  the first round: with the usage error when the number of solutions is not the number of
  boards or \<open>--random\<close> is set, with \<open>Unknown word\<close> for a supplied solution outside the
  dictionary otherwise. No guess has been chosen and no board exists yet.
\<close>

theorem unknown_solution_stops_at_start:
  assumes "s \<in> set args" and "s \<notin> set (allWords w)" and "s \<noteq> []"
  shows "\<exists>u. u \<in> set args \<and> u \<notin> set (allWords w)
           \<and> run cfg w args
               = (if length args \<noteq> threadCount cfg \<or> randomMode cfg then Usage
                  else UnknownWord u, [], [])"
proof -
  obtain u where u: "find (unknownSolution (allWords w)) (map Some args) = Some (Some u)"
      "u \<in> set args" "u \<notin> set (allWords w)"
    using find_unknownSolution [OF assms] by blast
  have ne: "args \<noteq> []" using assms(1) by auto
  show ?thesis
  proof (cases "length args \<noteq> threadCount cfg \<or> randomMode cfg")
    case True
    then have "start cfg w args = Inl Usage"
      using ne by (auto simp: start_def)
    then show ?thesis using True u by (auto simp: run_def)
  next
    case False
    then have "start cfg w args = Inl (UnknownWord u)"
      using ne u(1) by (simp add: start_def)
    then show ?thesis using False u by (auto simp: run_def)
  qed
qed

theorem unknown_solution_stops_at_start_witness:
  "run \<lparr>hardMode = False, freeMode = False, randomMode = False, threadCount = 1,
       roundCount = 6\<rparr>
     \<lparr>allWords = [''crane'', ''slate''], randomIndex = (\<lambda>n. 0),
        requestGuess = (\<lambda>n. []), requestResult = (\<lambda>n i. [])\<rparr> [''spine'']
   = (UnknownWord ''spine'', [], [])"
  using unknown_solution_stops_at_start [of "''spine''" "[''spine'']"
     "\<lparr>allWords = [''crane'', ''slate''], randomIndex = (\<lambda>n. 0),
        requestGuess = (\<lambda>n. []), requestResult = (\<lambda>n i. [])\<rparr>"
     "\<lparr>hardMode = False, freeMode = False, randomMode = False, threadCount = 1,
       roundCount = 6\<rparr>"]
  by simp

lemma updateBoards_solved:
  assumes "updateBoards response guess ps = Inr newKnown"
  shows "length newKnown = length ps
     \<and> (\<forall>j<length ps. solved (snd (ps ! j)) \<longrightarrow> newKnown ! j = snd (ps ! j))"
  using assms
proof (induction ps arbitrary: newKnown)
  case Nil
  then show ?case by simp
next
  case (Cons p ps)
  obtain i k where p: "p = (i, k)" by (cases p)
  from Cons.prems obtain k' ks where nk: "newKnown = k' # ks"
    and rest: "updateBoards response guess ps = Inr ks"
    and head: "solved k \<longrightarrow> k' = k"
    unfolding p by (auto split: if_splits sum.splits)
  from Cons.IH [OF rest] have ih: "length ks = length ps"
    "\<forall>j<length ps. solved (snd (ps ! j)) \<longrightarrow> ks ! j = snd (ps ! j)"
    by simp_all
  show ?case
  proof (intro conjI allI impI)
    show "length newKnown = length (p # ps)" using nk ih(1) by simp
  next
    fix j assume "j < length (p # ps)" and "solved (snd ((p # ps) ! j))"
    then show "newKnown ! j = snd ((p # ps) ! j)"
      using nk ih(2) head p by (cases j) auto
  qed
qed

lemma narrow_result:
  assumes "narrow newKnown ps = Inr newWords"
  shows "length newWords = length ps
     \<and> (\<forall>j<length ps. \<forall>k. elemAt newKnown (fst (ps ! j)) = Some k \<longrightarrow> solved k
            \<longrightarrow> newWords ! j = [])"
  using assms
proof (induction ps arbitrary: newWords)
  case Nil
  then show ?case by simp
next
  case (Cons p ps)
  obtain i words where p: "p = (i, words)" by (cases p)
  from Cons.prems obtain ws rest where nw: "newWords = ws # rest"
    and r: "narrow newKnown ps = Inr rest"
    and head: "\<forall>k. elemAt newKnown i = Some k \<longrightarrow> solved k \<longrightarrow> ws = []"
    unfolding p by (auto simp: Let_def split: option.splits if_splits sum.splits)
  from Cons.IH [OF r] have ih: "length rest = length ps"
    "\<forall>j<length ps. \<forall>k. elemAt newKnown (fst (ps ! j)) = Some k \<longrightarrow> solved k
        \<longrightarrow> rest ! j = []"
    by simp_all
  show ?case
  proof (intro conjI allI impI)
    show "length newWords = length (p # ps)" using nw ih(1) by simp
  next
    fix j k assume "j < length (p # ps)"
      and "elemAt newKnown (fst ((p # ps) ! j)) = Some k" and "solved k"
    then show "newWords ! j = []"
      using nw ih(2) head p by (cases j) auto
  qed
qed

lemma narrow_contradiction:
  assumes "narrow newKnown ps = Inl (WordNotKnown j k)"
  shows "\<exists>words. (j, words) \<in> set ps \<and> elemAt newKnown j = Some k \<and> \<not> solved k
            \<and> filterWords words k = []"
  using assms
proof (induction ps)
  case Nil
  then show ?case by simp
next
  case (Cons p ps)
  obtain i words where p: "p = (i, words)" by (cases p)
  from Cons.prems have
    "(i = j \<and> elemAt newKnown j = Some k \<and> \<not> solved k \<and> filterWords words k = [])
     \<or> narrow newKnown ps = Inl (WordNotKnown j k)"
    unfolding p by (auto simp: Let_def split: option.splits if_splits sum.splits)
  then show ?case
    using Cons.IH p by auto
qed


lemma updateBoards_zip:
  assumes "updateBoards response guess (zip [0..<length threadKnown] threadKnown) = Inr newKnown"
  shows "length newKnown = length threadKnown"
    and "\<And>j. j < length threadKnown \<Longrightarrow> solved (threadKnown ! j)
          \<Longrightarrow> newKnown ! j = threadKnown ! j"
  using updateBoards_solved [OF assms] by simp_all

lemma narrow_zip:
  assumes "narrow newKnown (zip [0..<length threadWords] threadWords) = Inr newWords"
  shows "length newWords = length threadWords"
    and "\<And>j. j < length threadWords \<Longrightarrow> j < length newKnown \<Longrightarrow> solved (newKnown ! j)
          \<Longrightarrow> newWords ! j = []"
  using narrow_result [OF assms] by (simp_all add: elemAt_def)

lemma narrow_zip_contradiction:
  assumes "narrow newKnown (zip [0..<length threadWords] threadWords)
           = Inl (WordNotKnown j k)"
  shows "j < length threadWords \<and> j < length newKnown \<and> k = newKnown ! j \<and> \<not> solved k
         \<and> filterWords (threadWords ! j) k = []"
proof -
  obtain words where w: "(j, words) \<in> set (zip [0..<length threadWords] threadWords)"
    and k: "elemAt newKnown j = Some k" "\<not> solved k" "filterWords words k = []"
    using narrow_contradiction [OF assms] by blast
  from w have "j < length threadWords" and "words = threadWords ! j"
    by (auto simp: set_zip)
  moreover from k(1) have "j < length newKnown" and "k = newKnown ! j"
    by (auto simp: elemAt_def split: if_splits)
  ultimately show ?thesis using k by simp
qed

lemma applyGuess_solved:
  assumes "i < length threadKnown" and "solved (threadKnown ! i)"
    and "length threadWords = length threadKnown"
  shows "applyGuess w solutions hasSolutions roundNumber guess threadKnown threadWords
           = Continue newKnown newWords
         \<Longrightarrow> newKnown ! i = threadKnown ! i \<and> newWords ! i = []
             \<and> length newKnown = length threadKnown \<and> length newWords = length threadWords"
    and "applyGuess w solutions hasSolutions roundNumber guess threadKnown threadWords
           = Break newKnown newWords
         \<Longrightarrow> newKnown ! i = threadKnown ! i"
    and "applyGuess w solutions hasSolutions roundNumber guess threadKnown threadWords
           = Stop x newKnown
         \<Longrightarrow> newKnown ! i = threadKnown ! i \<and> (\<forall>k. x \<noteq> WordNotKnown i k)"
proof -
  let ?u = "updateBoards (respond w solutions hasSolutions roundNumber guess) guess
              (zip [0..<length threadKnown] threadKnown)"
  {
    assume a: "applyGuess w solutions hasSolutions roundNumber guess threadKnown threadWords
           = Continue newKnown newWords"
    then have u: "?u = Inr newKnown"
      and n: "narrow newKnown (zip [0..<length threadWords] threadWords) = Inr newWords"
      by (auto simp: applyGuess_def split: sum.splits if_splits)
    have "newKnown ! i = threadKnown ! i" "length newKnown = length threadKnown"
      using updateBoards_zip [OF u] assms by simp_all
    moreover have "length newWords = length threadWords" "newWords ! i = []"
      using narrow_zip [OF n] assms calculation by simp_all
    ultimately show "newKnown ! i = threadKnown ! i \<and> newWords ! i = []
             \<and> length newKnown = length threadKnown \<and> length newWords = length threadWords"
      by simp
  next
    assume a: "applyGuess w solutions hasSolutions roundNumber guess threadKnown threadWords
           = Break newKnown newWords"
    then have u: "?u = Inr newKnown"
      by (auto simp: applyGuess_def split: sum.splits if_splits)
    show "newKnown ! i = threadKnown ! i"
      using updateBoards_zip [OF u] assms by simp
  next
    assume a: "applyGuess w solutions hasSolutions roundNumber guess threadKnown threadWords
           = Stop x newKnown"
    then consider (exc) e where "?u = Inl e" "x = Uncaught e" "newKnown = threadKnown"
      | (nar) "?u = Inr newKnown"
          "narrow newKnown (zip [0..<length threadWords] threadWords) = Inl x"
      by (auto simp: applyGuess_def split: sum.splits if_splits)
    then show "newKnown ! i = threadKnown ! i \<and> (\<forall>k. x \<noteq> WordNotKnown i k)"
    proof cases
      case exc
      then show ?thesis by simp
    next
      case nar
      have same: "newKnown ! i = threadKnown ! i"
        using updateBoards_zip [OF nar(1)] assms by simp
      have "x \<noteq> WordNotKnown i k" for k
      proof
        assume "x = WordNotKnown i k"
        then have "narrow newKnown (zip [0..<length threadWords] threadWords)
            = Inl (WordNotKnown i k)"
          using nar(2) by simp
        from narrow_zip_contradiction [OF this]
        have "k = newKnown ! i" and "\<not> solved k" by blast+
        then show False using same assms(2) by simp
      qed
      then show ?thesis using same by simp
    qed
  }
qed

lemma playRounds_solved:
  assumes "i < length threadKnown" and "solved (threadKnown ! i)"
    and "length threadWords = length threadKnown"
    and "playRounds cfg w solutions hasSolutions rounds threadKnown threadWords
         = (x, guesses, lastKnown)"
  shows "lastKnown ! i = threadKnown ! i \<and> (\<forall>k. x \<noteq> WordNotKnown i k)"
  using assms
proof (induction rounds arbitrary: threadKnown threadWords x guesses lastKnown)
  case Nil
  then show ?case by (auto simp: finish_def split: if_splits)
next
  case (Cons roundNumber rounds)
  obtain pool picked where
    pg: "pickGuess cfg w roundNumber threadKnown threadWords = (pool, picked)"
    by (cases "pickGuess cfg w roundNumber threadKnown threadWords") auto
  show ?case
  proof (cases picked)
    case (Inl e)
    then show ?thesis using Cons.prems(4) pg by (auto simp: Let_def)
  next
    case (Inr guess)
    show ?thesis
    proof (cases "applyGuess w solutions hasSolutions roundNumber guess threadKnown threadWords")
      case (Stop y newKnown)
      then show ?thesis
        using Cons.prems(4) pg Inr applyGuess_solved(3) [OF Cons.prems(1-3) Stop]
        by (auto simp: Let_def)
    next
      case (Break newKnown newWords)
      then show ?thesis
        using Cons.prems(4) pg Inr applyGuess_solved(2) [OF Cons.prems(1-3) Break]
        by (auto simp: Let_def finish_def split: if_splits)
    next
      case (Continue newKnown newWords)
      note c = applyGuess_solved(1) [OF Cons.prems(1-3) Continue]
      obtain y gs l where r: "playRounds cfg w solutions hasSolutions rounds newKnown newWords
          = (y, gs, l)"
        by (cases "playRounds cfg w solutions hasSolutions rounds newKnown newWords") auto
      have "l ! i = newKnown ! i \<and> (\<forall>k. y \<noteq> WordNotKnown i k)"
        using Cons.IH [OF _ _ _ r] c Cons.prems(1-3) by simp
      then show ?thesis
        using Cons.prems(4) pg Inr Continue r c by (auto simp: Let_def)
    qed
  qed
qed

lemma applyGuess_contradiction:
  assumes "applyGuess w solutions hasSolutions roundNumber guess threadKnown threadWords
           = Stop (WordNotKnown j k) newKnown"
  shows "j < length threadWords \<and> j < length newKnown \<and> k = newKnown ! j \<and> \<not> solved k
         \<and> filterWords (threadWords ! j) k = []"
proof -
  from assms have "narrow newKnown (zip [0..<length threadWords] threadWords)
      = Inl (WordNotKnown j k)"
    by (auto simp: applyGuess_def split: sum.splits if_splits)
  then show ?thesis by (rule narrow_zip_contradiction)
qed

lemma filterWords_crane_slate:
  "filterWords [''crane'', ''slate'']
     \<lparr>fixed = ''..a.e'', good = [(Some CHR ''a'', Suc 0), (Some CHR ''e'', Suc 0)],
      bad = [(Some CHR ''c'', Suc 0), (Some CHR ''r'', Suc 0), (Some CHR ''n'', Suc 0)],
      badPositions = [], guessResult = g, solved = False\<rparr> = [''slate'']"
  by (simp add: filterWords_def keeps_def countOccurrences_def toStr_def matchesChar_def)

text \<open>
  C9. A board that is solved when a round begins is passed over in that round and in all
  rounds after it. Its constraint state comes out of the round as it went in, whether the
  round goes on to the next one, leaves the loop or ends the process, and it is the state
  the loop ends with. When the round goes on to the next one the board's candidate list is
  the empty list. The exit for a board without candidates never names this board: it names
  a board that is unsolved after the update and whose filtered list is empty.
\<close>

theorem solved_board_skipped:
  assumes "i < length threadKnown" and "solved (threadKnown ! i)"
    and "length threadWords = length threadKnown"
  shows
    "(\<forall>newKnown newWords.
        applyGuess w solutions hasSolutions roundNumber guess threadKnown threadWords
          = Continue newKnown newWords
        \<longrightarrow> newKnown ! i = threadKnown ! i \<and> newWords ! i = [])
     \<and> (\<forall>newKnown newWords.
        applyGuess w solutions hasSolutions roundNumber guess threadKnown threadWords
          = Break newKnown newWords
        \<longrightarrow> newKnown ! i = threadKnown ! i)
     \<and> (\<forall>x newKnown.
        applyGuess w solutions hasSolutions roundNumber guess threadKnown threadWords
          = Stop x newKnown
        \<longrightarrow> newKnown ! i = threadKnown ! i \<and> (\<forall>k. x \<noteq> WordNotKnown i k))
     \<and> (\<forall>j k newKnown.
        applyGuess w solutions hasSolutions roundNumber guess threadKnown threadWords
          = Stop (WordNotKnown j k) newKnown
        \<longrightarrow> j < length threadWords \<and> k = newKnown ! j \<and> \<not> solved k
            \<and> filterWords (threadWords ! j) k = [])
     \<and> (\<forall>x guesses lastKnown.
        playRounds cfg w solutions hasSolutions rounds threadKnown threadWords
          = (x, guesses, lastKnown)
        \<longrightarrow> lastKnown ! i = threadKnown ! i \<and> (\<forall>k. x \<noteq> WordNotKnown i k))"
proof (intro conjI allI impI)
  fix newKnown newWords
  assume "applyGuess w solutions hasSolutions roundNumber guess threadKnown threadWords
          = Continue newKnown newWords"
  from applyGuess_solved(1) [OF assms this]
  show "newKnown ! i = threadKnown ! i" and "newWords ! i = []" by simp_all
next
  fix newKnown newWords
  assume "applyGuess w solutions hasSolutions roundNumber guess threadKnown threadWords
          = Break newKnown newWords"
  from applyGuess_solved(2) [OF assms this]
  show "newKnown ! i = threadKnown ! i" .
next
  fix x newKnown
  assume s: "applyGuess w solutions hasSolutions roundNumber guess threadKnown threadWords
          = Stop x newKnown"
  from applyGuess_solved(3) [OF assms s]
  show "newKnown ! i = threadKnown ! i" by simp
  fix k
  from applyGuess_solved(3) [OF assms s]
  show "x \<noteq> WordNotKnown i k" by simp
next
  fix j k newKnown
  assume "applyGuess w solutions hasSolutions roundNumber guess threadKnown threadWords
          = Stop (WordNotKnown j k) newKnown"
  from applyGuess_contradiction [OF this]
  show "j < length threadWords" and "k = newKnown ! j" and "\<not> solved k"
    and "filterWords (threadWords ! j) k = []" by blast+
next
  fix x guesses lastKnown
  assume p: "playRounds cfg w solutions hasSolutions rounds threadKnown threadWords
          = (x, guesses, lastKnown)"
  from playRounds_solved [OF assms p]
  show "lastKnown ! i = threadKnown ! i" by simp
  fix k
  from playRounds_solved [OF assms p]
  show "x \<noteq> WordNotKnown i k" by simp
qed


theorem solved_board_skipped_witness:
  "\<exists>newKnown newWords.
     applyGuess \<lparr>allWords = [''crane'', ''slate''], randomIndex = (\<lambda>n. 0),
         requestGuess = (\<lambda>n. []), requestResult = (\<lambda>n i. [])\<rparr>
       [Some ''crane'', Some ''slate''] True 1 ''crane''
       [\<lparr>fixed = ''crane'', good = [], bad = [], badPositions = [], guessResult = [],
          solved = True\<rparr>, nothingKnown]
       [[], [''crane'', ''slate'']] = Continue newKnown newWords
     \<and> newKnown ! 0 = \<lparr>fixed = ''crane'', good = [], bad = [], badPositions = [],
          guessResult = [], solved = True\<rparr>
     \<and> newWords ! 0 = []"
proof -
  let ?w = "\<lparr>allWords = [''crane'', ''slate''], randomIndex = (\<lambda>n. 0),
         requestGuess = (\<lambda>n. []), requestResult = (\<lambda>n i. [])\<rparr>"
  let ?k = "\<lparr>fixed = ''crane'', good = [], bad = [], badPositions = [], guessResult = [],
          solved = True\<rparr>"
  have "\<exists>newKnown newWords.
     applyGuess ?w [Some ''crane'', Some ''slate''] True 1 ''crane'' [?k, nothingKnown]
       [[], [''crane'', ''slate'']] = Continue newKnown newWords"
    by (simp add: applyGuess_def respond_def elemAt_def makeGuess_crane_slate
        updateKnown_crane_slate filterWords_crane_slate upt_rec solved_nothingKnown)
  then show ?thesis
    using solved_board_skipped [of 0 "[?k, nothingKnown]" "[[], [''crane'', ''slate'']]"
        ?w "[Some ''crane'', Some ''slate'']" True 1 "''crane''"]
    by auto
qed


text \<open>A run of two rounds on the dictionary \<open>slate, crane\<close> with the solution \<open>slate\<close>.\<close>

lemma solved_updateKnown:
  "solved (updateKnown guess response old) = list_all (\<lambda>position. position = PERFECT) response"
  by (simp add: updateKnown_def Let_def split: prod.splits)

lemma filterWords_slate_crane:
  "filterWords [''slate'', ''crane'']
     (updateKnown ''crane'' [WRONG, WRONG, PERFECT, WRONG, PERFECT] nothingKnown) = [''slate'']"
  by (simp add: updateKnown_crane_slate filterWords_def keeps_def countOccurrences_def
      toStr_def matchesChar_def)

lemma table_slate_crane:
  "scoreLetters [''slate'', ''crane'']
   = [(CHR ''s'', [1, 0, 0, 0]), (CHR ''l'', [1, 0, 0, 0]), (CHR ''a'', [0, 0, 0, 0]),
      (CHR ''t'', [1, 0, 0, 0]), (CHR ''e'', [0, 0, 0, 0]), (CHR ''c'', [1, 0, 0, 0]),
      (CHR ''r'', [1, 0, 0, 0]), (CHR ''n'', [1, 0, 0, 0])]"
  by (simp add: scoreLetters_def tally_def countLetters_def increment_def bumpRow_def
      bumpSlot_def upt4)

lemma chooseWord_slate_crane:
  "chooseWord [[''slate'', ''crane'']] [''slate'', ''crane''] = Inr ''crane''"
  by (simp add: chooseWord_def reduce1_def better_def table_slate_crane scoreWords_def
      scoreWord_def baseScore_def letterValue_def countLetters_def increment_def double_eval)

lemma chooseWord_slate:
  "chooseWord [[''slate'']] [''slate''] = Inr ''slate''"
  by (simp add: chooseWord_def reduce1_def)

lemma makeGuess_slate_slate:
  "makeGuess ''slate'' ''slate'' = [PERFECT, PERFECT, PERFECT, PERFECT, PERFECT]"
  by (simp add: makeGuess_def upt5 countUnmatched_def charAt_def)

lemma run_slate:
  "run \<lparr>hardMode = False, freeMode = False, randomMode = False, threadCount = 1,
         roundCount = 2\<rparr>
       \<lparr>allWords = [''slate'', ''crane''], randomIndex = (\<lambda>n. 0),
         requestGuess = (\<lambda>n. []), requestResult = (\<lambda>n i. [])\<rparr> [''slate'']
   = (Score,
      [\<lparr>roundOf = 0, knownOf = [nothingKnown], wordsOf = [[''slate'', ''crane'']],
         poolOf = Some [''slate'', ''crane''], guessOf = Inr ''crane''\<rparr>,
       \<lparr>roundOf = 1,
         knownOf = [updateKnown ''crane'' [WRONG, WRONG, PERFECT, WRONG, PERFECT] nothingKnown],
         wordsOf = [[''slate'']], poolOf = Some [''slate''], guessOf = Inr ''slate''\<rparr>],
      [updateKnown ''slate'' [PERFECT, PERFECT, PERFECT, PERFECT, PERFECT]
         (updateKnown ''crane'' [WRONG, WRONG, PERFECT, WRONG, PERFECT] nothingKnown)])"
  by (simp add: run_def start_def unknownSolution_def upt_rec pickGuess_def guessPool_def
      wordsToGuess_def solved_nothingKnown solved_updateKnown chooseWord_slate_crane
      chooseWord_slate applyGuess_def respond_def elemAt_def makeGuess_crane_slate
      makeGuess_slate_slate filterWords_slate_crane finish_def Let_def)

lemma playRounds_started:
  assumes "playRounds cfg w solutions hasSolutions rs threadKnown threadWords
           = (x, rounds, lastKnown)"
    and "k < length rounds"
  shows "k < length rs \<and> roundOf (rounds ! k) = rs ! k
     \<and> (poolOf (rounds ! k), guessOf (rounds ! k))
       = pickGuess cfg w (rs ! k) (knownOf (rounds ! k)) (wordsOf (rounds ! k))
     \<and> (case k of
          0 \<Rightarrow> knownOf (rounds ! 0) = threadKnown \<and> wordsOf (rounds ! 0) = threadWords
        | Suc j \<Rightarrow>
            \<exists>guess. guessOf (rounds ! j) = Inr guess
              \<and> applyGuess w solutions hasSolutions (rs ! j) guess (knownOf (rounds ! j))
                  (wordsOf (rounds ! j))
                = Continue (knownOf (rounds ! k)) (wordsOf (rounds ! k)))"
  using assms
proof (induction rs arbitrary: threadKnown threadWords x rounds lastKnown k)
  case Nil
  then show ?case by simp
next
  case (Cons r rs)
  obtain pool picked where pg: "pickGuess cfg w r threadKnown threadWords = (pool, picked)"
    by (cases "pickGuess cfg w r threadKnown threadWords") auto
  define this where "this = \<lparr>roundOf = r, knownOf = threadKnown, wordsOf = threadWords,
      poolOf = pool, guessOf = picked\<rparr>"
  have this_ok: "roundOf this = r" "knownOf this = threadKnown" "wordsOf this = threadWords"
    "(poolOf this, guessOf this) = pickGuess cfg w r (knownOf this) (wordsOf this)"
    by (simp_all add: this_def pg)
  have single: ?case if "rounds = [this]"
    using that Cons.prems(2) this_ok by simp
  show ?case
  proof (cases picked)
    case (Inl e)
    then have "rounds = [this]"
      using Cons.prems(1) pg by (auto simp: this_def)
    then show ?thesis by (rule single)
  next
    case (Inr guess)
    show ?thesis
    proof (cases "applyGuess w solutions hasSolutions r guess threadKnown threadWords")
      case (Stop y newKnown)
      then have "rounds = [this]"
        using Cons.prems(1) pg Inr by (auto simp: this_def)
      then show ?thesis by (rule single)
    next
      case (Break newKnown newWords)
      then have "rounds = [this]"
        using Cons.prems(1) pg Inr by (auto simp: this_def)
      then show ?thesis by (rule single)
    next
      case (Continue newKnown newWords)
      obtain y later l where rest:
        "playRounds cfg w solutions hasSolutions rs newKnown newWords = (y, later, l)"
        by (cases "playRounds cfg w solutions hasSolutions rs newKnown newWords") auto
      have rounds: "rounds = this # later"
        using Cons.prems(1) pg Inr Continue rest by (auto simp: this_def)
      show ?thesis
      proof (cases k)
        case 0
        then show ?thesis using rounds this_ok by simp
      next
        case (Suc j)
        then have j: "j < length later"
          using Cons.prems(2) rounds by simp
        note ih = Cons.IH [OF rest j]
        have step: "\<exists>guess. guessOf (rounds ! j) = Inr guess
              \<and> applyGuess w solutions hasSolutions ((r # rs) ! j) guess (knownOf (rounds ! j))
                  (wordsOf (rounds ! j))
                = Continue (knownOf (rounds ! Suc j)) (wordsOf (rounds ! Suc j))"
        proof (cases j)
          case 0
          then have "knownOf (later ! 0) = newKnown" "wordsOf (later ! 0) = newWords"
            using ih by simp_all
          then show ?thesis
            using 0 rounds Inr Continue by (simp add: this_def)
        next
          case (Suc i)
          then show ?thesis
            using ih rounds by simp
        qed
        show ?thesis
          using Suc ih rounds step by simp
      qed
    qed
  qed
qed

text \<open>
  C7. Every round of a run that is started is recorded, the round that \<open>k\<close> rounds were
  started before as the entry \<open>k\<close>. Its round number is \<open>k\<close>. The first round finds every
  board with nothing known and the dictionary as candidate list; every later round finds
  what the round before it left when it went on. In a round in which the user gives no
  guess a guess pool is computed and the word ranker is run on it: the pool is the
  concatenation of all boards' candidate lists when the hard-mode flag is set or the rounds
  that remain (the round budget minus the \<open>k\<close> rounds started before this one) are at most
  as many as the boards not yet solved, and the full dictionary otherwise. In a round in
  which the user gives a guess no pool is computed.
\<close>

theorem run_guessPool:
  assumes "run cfg w args = (x, rounds, lastKnown)" and "k < length rounds"
  shows "roundOf (rounds ! k) = k \<and> k < roundCount cfg
     \<and> poolOf (rounds ! k)
       = (if freeMode cfg \<and> requestGuess w k \<noteq> [] then None
          else Some (if hardMode cfg
                        \<or> int (roundCount cfg) - int k
                          \<le> int (length (filter (\<lambda>b. \<not> solved b) (knownOf (rounds ! k))))
                     then concat (wordsOf (rounds ! k)) else allWords w))
     \<and> guessOf (rounds ! k)
       = (case poolOf (rounds ! k) of
            None \<Rightarrow> Inr (requestGuess w k)
          | Some pool \<Rightarrow> chooseWord (wordsOf (rounds ! k)) pool)
     \<and> (case k of
          0 \<Rightarrow> knownOf (rounds ! 0) = replicate (threadCount cfg) nothingKnown
              \<and> wordsOf (rounds ! 0) = replicate (threadCount cfg) (allWords w)
        | Suc j \<Rightarrow>
            \<exists>solutions hasSolutions guess.
              start cfg w args = Inr (solutions, hasSolutions)
              \<and> guessOf (rounds ! j) = Inr guess
              \<and> applyGuess w solutions hasSolutions j guess (knownOf (rounds ! j))
                  (wordsOf (rounds ! j))
                = Continue (knownOf (rounds ! k)) (wordsOf (rounds ! k)))"
proof -
  obtain solutions hasSolutions where st: "start cfg w args = Inr (solutions, hasSolutions)"
    and pr: "playRounds cfg w solutions hasSolutions [0..<roundCount cfg]
               (replicate (threadCount cfg) nothingKnown)
               (replicate (threadCount cfg) (allWords w)) = (x, rounds, lastKnown)"
    using assms by (auto simp: run_def split: sum.splits)
  note tr = playRounds_started [OF pr assms(2)]
  have k: "k < roundCount cfg" and rk: "[0..<roundCount cfg] ! k = k"
    using tr by simp_all
  have number: "roundOf (rounds ! k) = k"
    using tr rk by simp
  have pick: "(poolOf (rounds ! k), guessOf (rounds ! k))
       = pickGuess cfg w k (knownOf (rounds ! k)) (wordsOf (rounds ! k))"
    using tr rk by simp
  have pool: "poolOf (rounds ! k)
       = (if freeMode cfg \<and> requestGuess w k \<noteq> [] then None
          else Some (if hardMode cfg
                        \<or> int (roundCount cfg) - int k
                          \<le> int (length (filter (\<lambda>b. \<not> solved b) (knownOf (rounds ! k))))
                     then concat (wordsOf (rounds ! k)) else allWords w))"
    using pick by (auto simp: pickGuess_def guessPool_def wordsToGuess_def Let_def
        split: if_splits)
  have guess: "guessOf (rounds ! k)
       = (case poolOf (rounds ! k) of
            None \<Rightarrow> Inr (requestGuess w k)
          | Some pool \<Rightarrow> chooseWord (wordsOf (rounds ! k)) pool)"
    using pick by (auto simp: pickGuess_def Let_def split: if_splits)
  have chain: "case k of
          0 \<Rightarrow> knownOf (rounds ! 0) = replicate (threadCount cfg) nothingKnown
              \<and> wordsOf (rounds ! 0) = replicate (threadCount cfg) (allWords w)
        | Suc j \<Rightarrow>
            \<exists>solutions hasSolutions guess.
              start cfg w args = Inr (solutions, hasSolutions)
              \<and> guessOf (rounds ! j) = Inr guess
              \<and> applyGuess w solutions hasSolutions j guess (knownOf (rounds ! j))
                  (wordsOf (rounds ! j))
                = Continue (knownOf (rounds ! k)) (wordsOf (rounds ! k))"
  proof (cases k)
    case 0
    then show ?thesis using tr by simp
  next
    case (Suc j)
    then have "[0..<roundCount cfg] ! j = j"
      using k by simp
    then show ?thesis
      using Suc tr st by auto
  qed
  show ?thesis
    using number k pool guess chain by blast
qed

theorem run_guessPool_witness:
  "\<exists>x rounds lastKnown.
     run \<lparr>hardMode = False, freeMode = False, randomMode = False, threadCount = 1,
           roundCount = 2\<rparr>
         \<lparr>allWords = [''slate'', ''crane''], randomIndex = (\<lambda>n. 0),
           requestGuess = (\<lambda>n. []), requestResult = (\<lambda>n i. [])\<rparr> [''slate'']
       = (x, rounds, lastKnown)
     \<and> length rounds = 2
     \<and> roundOf (rounds ! 0) = 0
     \<and> wordsOf (rounds ! 0) = [[''slate'', ''crane'']]
     \<and> poolOf (rounds ! 0) = Some [''slate'', ''crane'']
     \<and> guessOf (rounds ! 0) = Inr ''crane''
     \<and> roundOf (rounds ! 1) = 1
     \<and> wordsOf (rounds ! 1) = [[''slate'']]
     \<and> poolOf (rounds ! 1) = Some [''slate'']
     \<and> guessOf (rounds ! 1) = Inr ''slate''"
  using run_guessPool [OF run_slate, of 0] run_guessPool [OF run_slate, of 1]
  unfolding run_slate
  by (simp add: chooseWord_slate_crane chooseWord_slate)


section \<open>Properties of the constraint tracker on a store\<close>

lemma prefix_update:
  assumes "prefix h0 h" and "length h0 \<le> a"
  shows "prefix h0 (h[a := v])"
proof -
  obtain t where "h = h0 @ t" using assms(1) by (auto simp: prefix_def)
  then have "h[a := v] = h0 @ t[a - length h0 := v]"
    using assms(2) by (simp add: list_update_append)
  then show ?thesis by simp
qed

lemma prefix_alloc:
  assumes "prefix h0 h"
  shows "prefix h0 (snd (alloc v h))" and "fst (alloc v h) = length h"
    and "length h0 \<le> fst (alloc v h)"
  using assms by (auto simp: alloc_def prefix_def)

lemma scanStepOn_frame:
  assumes "prefix h0 h" and "length h0 \<le> newGood" and "length h0 \<le> newBad"
  shows "prefix h0 (snd (scanStepOn guess oldFixed newGood newBad (st, h) x))"
proof -
  obtain knownFixed badPos result where st: "st = (knownFixed, badPos, result)"
    by (cases st) auto
  obtain i letterResult where x: "x = (i, letterResult)" by (cases x)
  show ?thesis
  proof (cases letterResult)
    case PERFECT
    then show ?thesis
      using assms by (simp add: st x Let_def prefix_update)
  next
    case CLOSE
    let ?h1 = "h[newGood := Counts (increment (charAt guess i) (countsAt h newGood))]"
    have p1: "prefix h0 ?h1" using assms by (simp add: prefix_update)
    have "\<exists>zs. snd (scanStepOn guess oldFixed newGood newBad (st, h) x) = ?h1 @ zs"
      using CLOSE by (simp add: st x Let_def alloc_def split: prod.splits)
    then have "prefix ?h1 (snd (scanStepOn guess oldFixed newGood newBad (st, h) x))"
      by (auto simp: prefix_def)
    with p1 show ?thesis by (rule prefix_order.trans)
  next
    case WRONG
    then show ?thesis
      using assms by (simp add: st x Let_def prefix_update)
  qed
qed

lemma scan_frame:
  assumes "prefix h0 h" and "length h0 \<le> newGood" and "length h0 \<le> newBad"
  shows "prefix h0 (snd (foldl (scanStepOn guess oldFixed newGood newBad) (st, h) xs))"
  using assms(1)
proof (induction xs arbitrary: st h)
  case Nil
  then show ?case by simp
next
  case (Cons x xs)
  obtain st' h' where s: "scanStepOn guess oldFixed newGood newBad (st, h) x = (st', h')"
    by (cases "scanStepOn guess oldFixed newGood newBad (st, h) x") auto
  have "prefix h0 h'"
    using scanStepOn_frame [OF Cons.prems assms(2,3), of guess oldFixed st x] s by simp
  from Cons.IH [OF this] show ?case by (simp add: s)
qed

lemma updateKnownOn_frame:
  "prefix h (snd (updateKnownOn guess response old h))"
proof -
  let ?h2 = "(h @ [Counts []]) @ [LetterSet []]"
  have p2: "prefix h ?h2" by simp
  obtain st h3 where f: "foldl (scanStepOn guess (fixedOf old) (length h) (Suc (length h)))
               (([], badPositionsAt old, guessResultOf old), ?h2)
               (zip [0..<length response] response) = (st, h3)"
    by (cases "foldl (scanStepOn guess (fixedOf old) (length h) (Suc (length h)))
               (([], badPositionsAt old, guessResultOf old), ?h2)
               (zip [0..<length response] response)") auto
  have "prefix h h3"
    using scan_frame [OF p2, of "length h" "Suc (length h)" guess "fixedOf old"
        "([], badPositionsAt old, guessResultOf old)" "zip [0..<length response] response"] f
    by simp
  moreover have "\<exists>zs. snd (updateKnownOn guess response old h) = h3 @ zs"
    using f by (simp add: updateKnownOn_def alloc_def Let_def split: prod.splits)
  then have "prefix h3 (snd (updateKnownOn guess response old h))"
    by (auto simp: prefix_def)
  ultimately show ?thesis by (rule prefix_order.trans)
qed

lemma prefix_elemAt:
  assumes "prefix h h'" and "a < length h"
  shows "elemAt h' a = elemAt h a"
proof -
  obtain t where "h' = h @ t" using assms(1) by (auto simp: prefix_def)
  then show ?thesis using assms(2) by (simp add: elemAt_def nth_append)
qed

lemma view_frame:
  assumes "prefix h h'" and "inStore h k"
  shows "view h' k = view h k"
proof -
  have r: "countsAt h' (goodAt k) = countsAt h (goodAt k)"
    "countsAt h' (badAt k) = countsAt h (badAt k)"
    "positionsAt h' (badPositionsAt k) = positionsAt h (badPositionsAt k)"
    using assms by (simp_all add: inStore_def countsAt_def positionsAt_def prefix_elemAt)
  have "numbersAt h' a = numbersAt h a"
    if "(letter, a) \<in> set (positionsAt h (badPositionsAt k))" for letter a
  proof -
    have "a < length h"
      using assms(2) that by (auto simp: inStore_def list_all_iff)
    then show ?thesis
      using assms(1) by (simp add: numbersAt_def prefix_elemAt)
  qed
  then have "map (\<lambda>(letter, a). (letter, numbersAt h' a)) (positionsAt h (badPositionsAt k))
      = map (\<lambda>(letter, a). (letter, numbersAt h a)) (positionsAt h (badPositionsAt k))"
    by (intro map_cong) auto
  then show ?thesis
    by (simp add: view_def r)
qed

lemma elemAt_update:
  "elemAt (h[a := v]) a' = (if a' = a \<and> a < length h then Some v else elemAt h a')"
  by (simp add: elemAt_def)

lemma elemAt_append1:
  "elemAt (h @ [v]) a
   = (if a < length h then elemAt h a else if a = length h then Some v else None)"
  by (simp add: elemAt_def nth_append)

lemma map_update_values:
  "map (\<lambda>(letter, a). (letter, F a)) (AList.update k s es)
   = AList.update k (F s) (map (\<lambda>(letter, a). (letter, F a)) es)"
  by (induction es) auto

lemma map_of_map_values:
  "map_of (map (\<lambda>(letter, a). (letter, F a)) es) k = map_option F (map_of es k)"
  by (induction es) auto

lemma relatedI:
  assumes "knownFixed' = knownFixed" and "result' = result"
    and "length h0 + 2 \<le> length h"
    and "countsAt h (length h0) = newGood"
    and "lettersAt h (Suc (length h0)) = newBad"
    and "badPos < length h" and "badPos \<noteq> length h0" and "badPos \<noteq> Suc (length h0)"
    and "\<And>letter a. (letter, a) \<in> set (positionsAt h badPos)
          \<Longrightarrow> a < length h \<and> a \<noteq> length h0 \<and> a \<noteq> Suc (length h0)"
    and "map (\<lambda>(letter, a). (letter, numbersAt h a)) (positionsAt h badPos) = bp"
  shows "related h0 ((knownFixed', badPos, result'), h) (knownFixed, newGood, newBad, bp, result)"
  unfolding related_def using assms by auto

lemma related_step:
  assumes "related h0 (c, h) p"
  shows "related h0 (scanStepOn guess oldFixed (length h0) (Suc (length h0)) (c, h) x)
           (scanStep guess oldFixed p x)"
proof -
  obtain knownFixed badPos result where c: "c = (knownFixed, badPos, result)"
    by (cases c) auto
  obtain kf newGood newBad bp res where p: "p = (kf, newGood, newBad, bp, res)"
    by (cases p) auto
  obtain i letterResult where x: "x = (i, letterResult)" by (cases x)
  let ?g = "length h0" and ?b = "Suc (length h0)"
  from assms have r: "knownFixed = kf" "result = res" "length h0 + 2 \<le> length h"
    "countsAt h ?g = newGood" "lettersAt h ?b = newBad"
    "badPos < length h" "badPos \<noteq> ?g" "badPos \<noteq> ?b"
    "map (\<lambda>(letter, a). (letter, numbersAt h a)) (positionsAt h badPos) = bp"
    and addrs: "\<And>letter a. (letter, a) \<in> set (positionsAt h badPos)
        \<Longrightarrow> a < length h \<and> a \<noteq> ?g \<and> a \<noteq> ?b"
    unfolding related_def c p by auto
  show ?thesis
  proof (cases letterResult)
    case PERFECT
    let ?h' = "h[?g := Counts (increment (charAt guess i) (countsAt h ?g))]"
    have step: "scanStepOn guess oldFixed ?g ?b (c, h) x
        = ((knownFixed @ toStr (charAt guess i), badPos, result @ greenSquare), ?h')"
      using PERFECT by (simp add: c x Let_def)
    have pos: "positionsAt ?h' badPos = positionsAt h badPos"
      using r by (simp add: positionsAt_def elemAt_update)
    have num: "numbersAt ?h' a = numbersAt h a"
      if "(letter, a) \<in> set (positionsAt h badPos)" for letter a
      using addrs [OF that] by (simp add: numbersAt_def elemAt_update)
    have bp': "map (\<lambda>(letter, a). (letter, numbersAt ?h' a)) (positionsAt ?h' badPos) = bp"
      unfolding pos r(9) [symmetric] by (intro map_cong) (auto dest: num)
    have cnt: "countsAt ?h' ?g = increment (charAt guess i) newGood"
      using r by (simp add: countsAt_def elemAt_update)
    have let': "lettersAt ?h' ?b = newBad"
      using r by (simp add: lettersAt_def elemAt_update)
    have addrs': "a < length ?h' \<and> a \<noteq> ?g \<and> a \<noteq> ?b"
      if "(letter, a) \<in> set (positionsAt ?h' badPos)" for letter a
      using that addrs [of letter a] unfolding pos by simp
    have pure: "scanStep guess oldFixed p x
        = (kf @ toStr (charAt guess i), increment (charAt guess i) newGood, newBad, bp,
           res @ greenSquare)"
      using PERFECT by (simp add: p x Let_def)
    show ?thesis
      unfolding step pure
      using r(1-3,6-8) cnt let' bp' addrs' by (intro relatedI) simp_all
  next
    case WRONG
    let ?h' = "h[?b := LetterSet (setAdd (charAt guess i) (lettersAt h ?b))]"
    have step: "scanStepOn guess oldFixed ?g ?b (c, h) x
        = ((knownFixed @ toStr (charAt oldFixed i), badPos, result @ redSquare), ?h')"
      using WRONG by (simp add: c x Let_def)
    have pos: "positionsAt ?h' badPos = positionsAt h badPos"
      using r by (simp add: positionsAt_def elemAt_update)
    have num: "numbersAt ?h' a = numbersAt h a"
      if "(letter, a) \<in> set (positionsAt h badPos)" for letter a
      using addrs [OF that] by (simp add: numbersAt_def elemAt_update)
    have bp': "map (\<lambda>(letter, a). (letter, numbersAt ?h' a)) (positionsAt ?h' badPos) = bp"
      unfolding pos r(9) [symmetric] by (intro map_cong) (auto dest: num)
    have cnt: "countsAt ?h' ?g = newGood"
      using r by (simp add: countsAt_def elemAt_update)
    have let': "lettersAt ?h' ?b = setAdd (charAt guess i) newBad"
      using r by (simp add: lettersAt_def elemAt_update)
    have addrs': "a < length ?h' \<and> a \<noteq> ?g \<and> a \<noteq> ?b"
      if "(letter, a) \<in> set (positionsAt ?h' badPos)" for letter a
      using that addrs [of letter a] unfolding pos by simp
    have pure: "scanStep guess oldFixed p x
        = (kf @ toStr (charAt oldFixed i), newGood, setAdd (charAt guess i) newBad, bp,
           res @ redSquare)"
      using WRONG by (simp add: p x Let_def)
    show ?thesis
      unfolding step pure
      using r(1-3,6-8) cnt let' bp' addrs' by (intro relatedI) simp_all
  next
    case CLOSE
    let ?l = "charAt guess i"
    let ?h1 = "h[?g := Counts (increment ?l (countsAt h ?g))]"
    let ?es = "positionsAt h badPos"
    let ?X = "case map_of ?es ?l of None \<Rightarrow> [] | Some a \<Rightarrow> numbersAt h a"
    let ?s = "length h"
    let ?h4 = "?h1 @ [NumberSet (setAdd i (newSet ?X)), Positions (AList.update ?l ?s ?es)]"
    have pos1: "positionsAt ?h1 badPos = ?es"
      using r by (simp add: positionsAt_def elemAt_update)
    have num1: "numbersAt ?h1 a = numbersAt h a"
      if "(letter, a) \<in> set ?es" for letter a
      using addrs [OF that] by (simp add: numbersAt_def elemAt_update)
    have X1: "(case map_of ?es ?l of None \<Rightarrow> [] | Some a \<Rightarrow> numbersAt ?h1 a) = ?X"
      by (auto split: option.splits dest: map_of_SomeD num1)
    have step: "scanStepOn guess oldFixed ?g ?b (c, h) x
        = ((knownFixed @ toStr (charAt oldFixed i), Suc ?s, result @ yellowSquare), ?h4)"
      using CLOSE
      by (simp add: c x Let_def alloc_def pos1 X1 numbersAt_def elemAt_def nth_append)
    have num4: "numbersAt ?h4 a = numbersAt h a"
      if "(letter, a) \<in> set ?es" for letter a
      using addrs [OF that]
      by (simp add: numbersAt_def elemAt_def nth_append)
    have numS: "numbersAt ?h4 ?s = setAdd i (newSet ?X)"
      by (simp add: numbersAt_def elemAt_def nth_append)
    have pos4: "positionsAt ?h4 (Suc ?s) = AList.update ?l ?s ?es"
      by (simp add: positionsAt_def elemAt_def nth_append)
    have old: "map (\<lambda>(letter, a). (letter, numbersAt ?h4 a)) ?es = bp"
      unfolding r(9) [symmetric] by (intro map_cong) (auto dest: num4)
    have Xbp: "(case map_of bp ?l of None \<Rightarrow> [] | Some s \<Rightarrow> s) = ?X"
      unfolding r(9) [symmetric] by (simp add: map_of_map_values split: option.splits)
    have bp': "map (\<lambda>(letter, a). (letter, numbersAt ?h4 a)) (positionsAt ?h4 (Suc ?s))
        = AList.update ?l (setAdd i (newSet (case map_of bp ?l of None \<Rightarrow> [] | Some s \<Rightarrow> s))) bp"
      unfolding pos4 map_update_values numS old Xbp ..
    have addrs4: "a < length ?h4 \<and> a \<noteq> ?g \<and> a \<noteq> ?b"
      if "(letter, a) \<in> set (positionsAt ?h4 (Suc ?s))" for letter a
    proof -
      have "(letter, a) = (?l, ?s) \<or> (letter, a) \<in> set ?es"
        using that set_update_subset [of ?l ?s ?es] unfolding pos4 by auto
      then show ?thesis
        using addrs [of letter a] r(3) by auto
    qed
    have cnt: "countsAt ?h4 ?g = increment ?l newGood"
      using r by (simp add: countsAt_def elemAt_def nth_append)
    have let4: "lettersAt ?h4 ?b = newBad"
      using r by (simp add: lettersAt_def elemAt_def nth_append)
    have pure: "scanStep guess oldFixed p x
        = (kf @ toStr (charAt oldFixed i), increment ?l newGood, newBad,
           AList.update ?l
             (setAdd i (newSet (case map_of bp ?l of None \<Rightarrow> [] | Some s \<Rightarrow> s))) bp,
           res @ yellowSquare)"
      using CLOSE by (simp add: p x Let_def)
    have "Suc ?s < length ?h4" "Suc ?s \<noteq> ?g" "Suc ?s \<noteq> ?b" "length h0 + 2 \<le> length ?h4"
      using r(3) by simp_all
    then show ?thesis
      unfolding step pure
      using r(1,2) cnt let4 bp' addrs4 by (intro relatedI) simp_all
  qed
qed

lemma related_fold:
  assumes "related h0 (c, h) p"
  shows "related h0 (foldl (scanStepOn guess oldFixed (length h0) (Suc (length h0))) (c, h) xs)
           (foldl (scanStep guess oldFixed) p xs)"
  using assms
proof (induction xs arbitrary: c h p)
  case Nil
  then show ?case by simp
next
  case (Cons x xs)
  obtain c' h' where s: "scanStepOn guess oldFixed (length h0) (Suc (length h0)) (c, h) x
      = (c', h')"
    by (cases "scanStepOn guess oldFixed (length h0) (Suc (length h0)) (c, h) x") auto
  have "related h0 (c', h') (scanStep guess oldFixed p x)"
    using related_step [OF Cons.prems, of guess oldFixed x] s by simp
  from Cons.IH [OF this] show ?case by (simp add: s)
qed

lemma related_start:
  assumes "inStore h0 old"
  shows "related h0 (([], badPositionsAt old, guessResultOf old),
             h0 @ [Counts [], LetterSet []])
           ([], [], [], badPositions (view h0 old), guessResult (view h0 old))"
proof (intro relatedI)
  let ?h = "h0 @ [Counts [], LetterSet []]"
  have p: "prefix h0 ?h" by simp
  have in0: "badPositionsAt old < length h0"
    and addrs0: "\<And>letter a. (letter, a) \<in> set (positionsAt h0 (badPositionsAt old))
        \<Longrightarrow> a < length h0"
    using assms by (auto simp: inStore_def list_all_iff)
  have pos: "positionsAt ?h (badPositionsAt old) = positionsAt h0 (badPositionsAt old)"
    using in0 by (simp add: positionsAt_def elemAt_def nth_append)
  show "countsAt ?h (length h0) = []"
    by (simp add: countsAt_def elemAt_def nth_append)
  show "lettersAt ?h (Suc (length h0)) = []"
    by (simp add: lettersAt_def elemAt_def nth_append)
  show "badPositionsAt old < length ?h" "badPositionsAt old \<noteq> length h0"
    "badPositionsAt old \<noteq> Suc (length h0)" "length h0 + 2 \<le> length ?h"
    using in0 by simp_all
  show "a < length ?h \<and> a \<noteq> length h0 \<and> a \<noteq> Suc (length h0)"
    if "(letter, a) \<in> set (positionsAt ?h (badPositionsAt old))" for letter a
    using that addrs0 [of letter a] unfolding pos by simp
  have "map (\<lambda>(letter, a). (letter, numbersAt ?h a)) (positionsAt h0 (badPositionsAt old))
      = map (\<lambda>(letter, a). (letter, numbersAt h0 a)) (positionsAt h0 (badPositionsAt old))"
    by (intro map_cong) (auto simp: numbersAt_def elemAt_def nth_append dest: addrs0)
  then show "map (\<lambda>(letter, a). (letter, numbersAt ?h a))
       (positionsAt ?h (badPositionsAt old)) = badPositions (view h0 old)"
    unfolding pos by (simp add: view_def)
  show "guessResultOf old = guessResult (view h0 old)"
    by (simp add: view_def)
qed simp

lemma updateKnownOn_refines:
  assumes "inStore h0 old"
  shows "view (snd (updateKnownOn guess response old h0))
           (fst (updateKnownOn guess response old h0))
         = updateKnown guess response (view h0 old)"
proof -
  let ?g = "length h0" and ?b = "Suc (length h0)"
  let ?h2 = "h0 @ [Counts [], LetterSet []]"
  let ?xs = "zip [0..<length response] response"
  obtain kf' badPos res' h3 where f:
    "foldl (scanStepOn guess (fixedOf old) ?g ?b)
       (([], badPositionsAt old, guessResultOf old), ?h2) ?xs = ((kf', badPos, res'), h3)"
    by (cases "foldl (scanStepOn guess (fixedOf old) ?g ?b)
       (([], badPositionsAt old, guessResultOf old), ?h2) ?xs") auto
  obtain kf ng nb bp res where s:
    "scanResponse guess response (view h0 old) = (kf, ng, nb, bp, res)"
    by (cases "scanResponse guess response (view h0 old)") auto
  have fx: "fixed (view h0 old) = fixedOf old" by (simp add: view_def)
  have "related h0 ((kf', badPos, res'), h3) (kf, ng, nb, bp, res)"
    using related_fold [OF related_start [OF assms], of guess "fixedOf old" ?xs] f s
    by (simp add: scanResponse_def fx)
  then have r: "kf' = kf" "res' = res" "length h0 + 2 \<le> length h3"
    "countsAt h3 ?g = ng" "lettersAt h3 ?b = nb" "badPos < length h3"
    "map (\<lambda>(letter, a). (letter, numbersAt h3 a)) (positionsAt h3 badPos) = bp"
    and addrs: "\<And>letter a. (letter, a) \<in> set (positionsAt h3 badPos) \<Longrightarrow> a < length h3"
    unfolding related_def by auto
  have p3: "prefix h0 h3"
    using scan_frame [of h0 ?h2 ?g ?b guess "fixedOf old"
        "([], badPositionsAt old, guessResultOf old)" ?xs] f by simp
  have in0: "goodAt old < length h0" "badAt old < length h0"
    using assms by (simp_all add: inStore_def)
  have og: "countsAt h3 (goodAt old) = good (view h0 old)"
    using in0 by (simp add: countsAt_def prefix_elemAt [OF p3] view_def)
  define GL where "GL = map (\<lambda>letter. (letter,
        max (case map_of (good (view h0 old)) letter of None \<Rightarrow> 0 | Some n \<Rightarrow> n)
            (case map_of ng letter of None \<Rightarrow> 0 | Some n \<Rightarrow> n)))
      (newSet (map fst (good (view h0 old)) @ map fst ng))"
  have ob: "countsAt (h3 @ [v]) (badAt old) = bad (view h0 old)" for v
  proof -
    have "prefix h0 (h3 @ [v])" using p3 by (rule prefix_prefix)
    then show ?thesis
      using in0 by (simp add: countsAt_def prefix_elemAt view_def)
  qed
  have gl4: "countsAt (h3 @ [Counts X]) (length h3) = X" for X
    by (simp add: countsAt_def elemAt_def)
  have nb4: "lettersAt (h3 @ [v]) ?b = nb" for v
    using r(3,5) by (simp add: lettersAt_def elemAt_def nth_append)
  define BL where "BL = foldl (\<lambda>obj letter. AList.update letter
        ((case map_of GL letter of None \<Rightarrow> 0 | Some n \<Rightarrow> n) + 1) obj)
      (bad (view h0 old)) nb"
  let ?h5 = "h3 @ [Counts GL, Counts BL]"
  have res: "updateKnownOn guess response old h0
      = (\<lparr> fixedOf = kf, goodAt = length h3, badAt = Suc (length h3), badPositionsAt = badPos,
            guessResultOf = res @ '' '' @ guess @ [CHR 0x0A],
            solvedOf = list_all (\<lambda>position. position = PERFECT) response \<rparr>, ?h5)"
    unfolding updateKnownOn_def alloc_def
    by (simp add: f r(1,2,4) og gl4 ob nb4 GL_def BL_def Let_def)
  have pos5: "positionsAt ?h5 badPos = positionsAt h3 badPos"
    using r(6) by (simp add: positionsAt_def elemAt_def nth_append)
  have "map (\<lambda>(letter, a). (letter, numbersAt ?h5 a)) (positionsAt h3 badPos)
      = map (\<lambda>(letter, a). (letter, numbersAt h3 a)) (positionsAt h3 badPos)"
    by (intro map_cong) (auto simp: numbersAt_def elemAt_def nth_append dest: addrs)
  then have bp5: "map (\<lambda>(letter, a). (letter, numbersAt ?h5 a)) (positionsAt ?h5 badPos) = bp"
    unfolding pos5 using r(7) by simp
  have v: "view ?h5 \<lparr> fixedOf = kf, goodAt = length h3, badAt = Suc (length h3),
            badPositionsAt = badPos, guessResultOf = res @ '' '' @ guess @ [CHR 0x0A],
            solvedOf = list_all (\<lambda>position. position = PERFECT) response \<rparr>
      = \<lparr> fixed = kf, good = GL, bad = BL, badPositions = bp,
          guessResult = res @ '' '' @ guess @ [CHR 0x0A],
          solved = list_all (\<lambda>position. position = PERFECT) response \<rparr>"
    unfolding view_def using bp5
    by (simp add: countsAt_def elemAt_def nth_append)
  have u: "updateKnown guess response (view h0 old)
      = \<lparr> fixed = kf, good = GL, bad = BL, badPositions = bp,
          guessResult = res @ '' '' @ guess @ [CHR 0x0A],
          solved = list_all (\<lambda>position. position = PERFECT) response \<rparr>"
    by (simp add: updateKnown_def s GL_def BL_def Let_def)
  show ?thesis
    unfolding res u using v by simp
qed

lemma updateKnownOn_fresh:
  "length h \<le> goodAt (fst (updateKnownOn guess response old h))
   \<and> length h \<le> badAt (fst (updateKnownOn guess response old h))"
proof -
  let ?h2 = "(h @ [Counts []]) @ [LetterSet []]"
  have p2: "prefix h ?h2" by simp
  obtain st h3 where f: "foldl (scanStepOn guess (fixedOf old) (length h) (Suc (length h)))
               (([], badPositionsAt old, guessResultOf old), ?h2)
               (zip [0..<length response] response) = (st, h3)"
    by (cases "foldl (scanStepOn guess (fixedOf old) (length h) (Suc (length h)))
               (([], badPositionsAt old, guessResultOf old), ?h2)
               (zip [0..<length response] response)") auto
  have "prefix h h3"
    using scan_frame [OF p2, of "length h" "Suc (length h)" guess "fixedOf old"
        "([], badPositionsAt old, guessResultOf old)" "zip [0..<length response] response"] f
    by simp
  then have "length h \<le> length h3" by (rule prefix_length_le)
  moreover have "goodAt (fst (updateKnownOn guess response old h)) = length h3"
    "badAt (fst (updateKnownOn guess response old h)) = Suc (length h3)"
    using f by (simp_all add: updateKnownOn_def alloc_def Let_def split: prod.splits)
  ultimately show ?thesis by simp
qed

text \<open>
  C10. The update writes to no object that existed before the call: the store before the
  call is an initial segment of the store after it, so every write went to an object the
  call created (\<open>newGood\<close>, \<open>newBad\<close>, the copied position sets). The \<open>good\<close> and \<open>bad\<close>
  records of the result are objects created in the call. A previous state whose references
  point into the store therefore shows the same fields after the call as before, and the
  returned state shows what \<open>updateKnown\<close> computes from them.
\<close>

theorem updateKnownOn_leaves_old:
  "prefix h (snd (updateKnownOn guess response old h))
   \<and> length h \<le> goodAt (fst (updateKnownOn guess response old h))
   \<and> length h \<le> badAt (fst (updateKnownOn guess response old h))
   \<and> (inStore h old \<longrightarrow>
        view (snd (updateKnownOn guess response old h)) old = view h old
        \<and> view (snd (updateKnownOn guess response old h))
              (fst (updateKnownOn guess response old h))
            = updateKnown guess response (view h old))"
  using updateKnownOn_frame [of h guess response old]
    updateKnownOn_fresh [of h guess response old]
    view_frame [of h "snd (updateKnownOn guess response old h)" old]
    updateKnownOn_refines [of h old guess response]
  by blast

theorem updateKnownOn_leaves_old_witness:
  "prefix [Counts [(Some CHR ''e'', 1)], Counts [], NumberSet [0], Positions [(Some CHR ''e'', 2)]]
     (snd (updateKnownOn ''speed'' [CLOSE, WRONG, CLOSE, CLOSE, WRONG]
        \<lparr>fixedOf = ''.....'', goodAt = 0, badAt = 1, badPositionsAt = 3, guessResultOf = [],
         solvedOf = False\<rparr>
        [Counts [(Some CHR ''e'', 1)], Counts [], NumberSet [0], Positions [(Some CHR ''e'', 2)]]))
   \<and> view (snd (updateKnownOn ''speed'' [CLOSE, WRONG, CLOSE, CLOSE, WRONG]
        \<lparr>fixedOf = ''.....'', goodAt = 0, badAt = 1, badPositionsAt = 3, guessResultOf = [],
         solvedOf = False\<rparr>
        [Counts [(Some CHR ''e'', 1)], Counts [], NumberSet [0], Positions [(Some CHR ''e'', 2)]]))
      \<lparr>fixedOf = ''.....'', goodAt = 0, badAt = 1, badPositionsAt = 3, guessResultOf = [],
         solvedOf = False\<rparr>
     = \<lparr>fixed = ''.....'', good = [(Some CHR ''e'', 1)], bad = [],
        badPositions = [(Some CHR ''e'', [0])], guessResult = [], solved = False\<rparr>"
proof -
  let ?h = "[Counts [(Some CHR ''e'', 1)], Counts [], NumberSet [0],
      Positions [(Some CHR ''e'', 2)]]"
  let ?old = "\<lparr>fixedOf = ''.....'', goodAt = 0, badAt = 1, badPositionsAt = 3,
      guessResultOf = [], solvedOf = False\<rparr>"
  have i: "inStore ?h ?old"
    by (simp add: inStore_def positionsAt_def elemAt_def)
  have v: "view ?h ?old = \<lparr>fixed = ''.....'', good = [(Some CHR ''e'', 1)], bad = [],
        badPositions = [(Some CHR ''e'', [0])], guessResult = [], solved = False\<rparr>"
    by (simp add: view_def countsAt_def positionsAt_def numbersAt_def elemAt_def)
  show ?thesis
    using updateKnownOn_leaves_old [of ?h "''speed''" "[CLOSE, WRONG, CLOSE, CLOSE, WRONG]" ?old]
      i v
    by simp
qed


end
